theory Spec2Isabelle
  imports Main "HOL-Library.Word"
begin

section \<open>Distributed histogram pipeline (get\_counts.cpp, sampler\_test.cpp)\<close>

text \<open>
  Both source files end in the same pipeline: rank 0 owns a vector of \<open>uint32_t\<close> samples,
  \<open>MPI_Scatter\<close> hands every rank \<open>local_n = total_count / size\<close> of them, every rank counts
  the samples below \<open>MAXVAL\<close> into a \<open>std::vector<int>\<close> of \<open>MAXVAL\<close> counters,
  \<open>MPI_Reduce\<close> with \<open>MPI_SUM\<close> adds the counters element-wise at rank 0, and rank 0 writes the
  positive counters as one JSON object. In get\_counts.cpp the samples come from
  \<open>input.bin\<close>.

  Machine integers are words: a sample and \<open>total_count\<close> are \<open>uint32_t\<close>, a counter is a
  C \<open>int\<close>, held as a 32-bit word and read through \<open>sint\<close>. Overflow of a signed counter is
  undefined in C++; the model gives it the two's-complement wrap-around of the hardware
  addition, and every statement about the numeric value of a counter says when no counter
  overflows. The platform is LP64 and little-endian (the Linux hosts a Slurm cluster runs on):
  \<open>std::streamoff\<close> and \<open>size_t\<close> have 64 bits. Memory allocation is taken to succeed,
  except in \<open>read_input_in\<close>, which gives the reader the outcome of its allocation.
\<close>

type_synonym byte = "8 word"
type_synonym u32 = "32 word"
type_synonym i32 = "32 word"

subsection \<open>Constants\<close>

definition BITLEN :: u32 where
  "BITLEN = 10"

definition MAXVAL :: u32 where
  "MAXVAL = push_bit (unat BITLEN) 1"

subsection \<open>Local histogram\<close>

text \<open>
  \<^verbatim>\<open>std::vector<int> local_hist(MAXVAL, 0);
  for (auto v : local_data) { if (v < MAXVAL) local_hist[v]++; }\<close>
\<close>

definition hist_step :: "i32 list \<Rightarrow> u32 \<Rightarrow> i32 list" where
  "hist_step h v = (if v < MAXVAL then h[unat v := h ! unat v + 1] else h)"

definition local_hist :: "u32 list \<Rightarrow> i32 list" where
  "local_hist local_data = foldl hist_step (replicate (unat MAXVAL) 0) local_data"

subsection \<open>The collectives\<close>

text \<open>
  \<open>MPI_Scatter\<close> with equal send and receive counts: the root's buffer is cut into
  consecutive blocks of \<open>sendcount\<close> elements, block \<open>r\<close> going to rank \<open>r\<close>. The count
  parameter is a C \<open>int\<close>; a negative count is the error class \<open>MPI_ERR_COUNT\<close>, which under
  the default error handler ends the job. The result lists the receive buffers in rank
  order.
\<close>

datatype mpi_error = MPI_ERR_COUNT

fun scatter_blocks :: "'a list \<Rightarrow> nat \<Rightarrow> nat \<Rightarrow> 'a list list" where
  "scatter_blocks sendbuf sendcount 0 = []"
| "scatter_blocks sendbuf sendcount (Suc p) =
     take sendcount sendbuf # scatter_blocks (drop sendcount sendbuf) sendcount p"

definition MPI_Scatter :: "'a list \<Rightarrow> i32 \<Rightarrow> nat \<Rightarrow> mpi_error + 'a list list" where
  "MPI_Scatter sendbuf sendcount comm_size =
     (if sendcount <s 0 then Inl MPI_ERR_COUNT
      else Inr (scatter_blocks sendbuf (nat (sint sendcount)) comm_size))"

text \<open>
  \<open>MPI_Reduce\<close> with \<open>MPI_SUM\<close> on \<open>count\<close> elements of type \<open>MPI_INT\<close>: the element-wise
  sum of the ranks' send buffers, here accumulated in rank order.
\<close>

definition MPI_Reduce_SUM :: "nat \<Rightarrow> i32 list list \<Rightarrow> i32 list" where
  "MPI_Reduce_SUM count sendbufs =
     foldl (\<lambda>acc buf. map2 (+) acc (take count buf)) (replicate count 0) sendbufs"

text \<open>
  From the broadcast of \<open>total_count\<close> to the reduction, as every rank runs it; \<open>size\<close> is
  the number of ranks, a positive C \<open>int\<close> converted to \<open>unsigned\<close> by the division.
\<close>

definition global_histogram :: "u32 \<Rightarrow> u32 list \<Rightarrow> nat \<Rightarrow> mpi_error + i32 list" where
  "global_histogram total_count data comm_size =
     (let local_n = total_count div of_nat comm_size in
      case MPI_Scatter data local_n comm_size of
        Inl e \<Rightarrow> Inl e
      | Inr slices \<Rightarrow> Inr (MPI_Reduce_SUM (unat MAXVAL) (map local_hist slices)))"

subsection \<open>Sparse JSON emitter\<close>

text \<open>
  \<open>operator<<\<close> on an unsigned and on a signed integer: decimal digits, most significant
  first, no padding, a leading minus sign for a negative value.
\<close>

definition digit_char :: "nat \<Rightarrow> char" where
  "digit_char d = char_of (48 + d)"

function show_nat :: "nat \<Rightarrow> string" where
  "show_nat n = (if n < 10 then [digit_char n] else show_nat (n div 10) @ [digit_char (n mod 10)])"
  by pat_completeness auto
termination
  by (relation "measure (\<lambda>n. n)") auto

declare show_nat.simps [simp del]

definition show_int :: "int \<Rightarrow> string" where
  "show_int k = (if k < 0 then CHR ''-'' # show_nat (nat (- k)) else show_nat (nat k))"

text \<open>
  \<^verbatim>\<open>fout << "{";
  bool first = true;
  for (uint32_t i = 0; i < MAXVAL; ++i) {
      if (global_hist[i] > 0) {
          if (!first) fout << ",";
          fout << "\"" << i << "\":" << global_hist[i];
          first = false;
      }
  }
  fout << "}\n";\<close>
  The loop carries the index, the flag and the text written so far. The index stays below
  \<open>MAXVAL\<close>, so it is a natural number here.
\<close>

function emit_loop :: "i32 list \<Rightarrow> nat \<Rightarrow> bool \<Rightarrow> string \<Rightarrow> string" where
  "emit_loop global_hist i first fout =
     (if i < unat MAXVAL then
        (if 0 <s global_hist ! i then
           emit_loop global_hist (i + 1) False
             (fout @ (if \<not> first then '','' else [])
                   @ [CHR 0x22] @ show_nat i @ [CHR 0x22] @ '':''
                   @ show_int (sint (global_hist ! i)))
         else emit_loop global_hist (i + 1) first fout)
      else fout)"
  by pat_completeness auto
termination
  by (relation "measure (\<lambda>(global_hist, i, first, fout). unat MAXVAL - i)") auto

declare emit_loop.simps [simp del]

definition emit :: "i32 list \<Rightarrow> string" where
  "emit global_hist = emit_loop global_hist 0 True ''{'' @ ''}'' @ [CHR 0x0A]"

text \<open>The tail of both programs: scatter, count, reduce, write \<open>output.json\<close>.\<close>

definition pipeline :: "u32 \<Rightarrow> u32 list \<Rightarrow> nat \<Rightarrow> mpi_error + string" where
  "pipeline total_count data comm_size =
     (case global_histogram total_count data comm_size of
        Inl e \<Rightarrow> Inl e
      | Inr global_hist \<Rightarrow> Inr (emit global_hist))"

subsection \<open>Binary reader\<close>

text \<open>
  \<^verbatim>\<open>std::ifstream fin("input.bin", std::ios::binary | std::ios::ate);
  total_count = fin.tellg() / sizeof(uint32_t);
  fin.seekg(0, std::ios::beg);
  data.resize(total_count);
  fin.read(reinterpret_cast<char*>(data.data()), total_count * sizeof(uint32_t));
  fin.close();\<close>
  The file is its bytes, or \<open>None\<close> when it cannot be opened. The source tests the stream
  nowhere. A stream that failed to open answers \<open>tellg\<close> with \<open>pos_type(-1)\<close> and ignores
  \<open>seekg\<close> and \<open>read\<close>; a stream opened with \<open>ate\<close> stands at the end, so \<open>tellg\<close> is the
  size. The quotient is taken in \<open>size_t\<close> (64 bits, unsigned) and narrowed to \<open>uint32_t\<close>.
\<close>

definition tellg :: "byte list option \<Rightarrow> int" where
  "tellg fin = (case fin of None \<Rightarrow> - 1 | Some bytes \<Rightarrow> int (length bytes))"

definition count_of_pos :: "int \<Rightarrow> u32" where
  "count_of_pos pos = ucast ((word_of_int pos :: 64 word) div 4)"

definition fin_read :: "byte list option \<Rightarrow> byte list \<Rightarrow> nat \<Rightarrow> byte list" where
  "fin_read fin buf n =
     (case fin of
        None \<Rightarrow> buf
      | Some bytes \<Rightarrow> take n bytes @ drop (length (take n bytes)) buf)"

text \<open>The vector's storage read back as \<open>uint32_t\<close> elements, least significant byte first.\<close>

definition native_u32 :: "byte \<Rightarrow> byte \<Rightarrow> byte \<Rightarrow> byte \<Rightarrow> u32" where
  "native_u32 b0 b1 b2 b3 = word_rcat [b3, b2, b1, b0]"

fun u32_elements :: "byte list \<Rightarrow> u32 list" where
  "u32_elements (b0 # b1 # b2 # b3 # bs) = native_u32 b0 b1 b2 b3 # u32_elements bs"
| "u32_elements bs = []"

definition read_input :: "byte list option \<Rightarrow> u32 \<times> u32 list" where
  "read_input fin =
     (let total_count = count_of_pos (tellg fin);
          storage = replicate (unat total_count * 4) (0 :: byte)
      in (total_count, u32_elements (fin_read fin storage (unat total_count * 4))))"

text \<open>
  \<open>data.resize(total_count)\<close> allocates the buffer; when the elements cannot be had it
  throws \<open>std::bad_alloc\<close>, which the source catches nowhere. \<open>read_input\<close> is the reader
  when the allocation succeeds; \<open>read_input_in avail\<close> is the reader of a process that
  can allocate at most \<open>avail\<close> elements.
\<close>

datatype cxx_exception = bad_alloc

definition read_input_in :: "nat \<Rightarrow> byte list option \<Rightarrow> cxx_exception + (u32 \<times> u32 list)" where
  "read_input_in avail fin =
     (let total_count = count_of_pos (tellg fin) in
      if avail < unat total_count then Inl bad_alloc
      else let storage = replicate (unat total_count * 4) (0 :: byte)
           in Inr (total_count, u32_elements (fin_read fin storage (unat total_count * 4))))"

text \<open>\<open>main\<close> of get\_counts.cpp on \<open>comm_size\<close> ranks.\<close>

definition get_counts :: "byte list option \<Rightarrow> nat \<Rightarrow> mpi_error + string" where
  "get_counts fin comm_size =
     (case read_input fin of (total_count, data) \<Rightarrow> pipeline total_count data comm_size)"

text \<open>
  MPI leaves the order in which \<open>MPI_Reduce\<close> combines the contributions of the ranks to
  the implementation, so two runs may differ in it. A run of get\_counts.cpp is given by
  the file, the number of ranks and the order of combination, a list of ranks.
\<close>

definition get_counts_in_order :: "nat list \<Rightarrow> byte list option \<Rightarrow> nat \<Rightarrow> mpi_error + string" where
  "get_counts_in_order order fin comm_size =
     (case read_input fin of (total_count, data) \<Rightarrow>
        (case MPI_Scatter data (total_count div of_nat comm_size) comm_size of
           Inl e \<Rightarrow> Inl e
         | Inr slices \<Rightarrow>
             Inr (emit (MPI_Reduce_SUM (unat MAXVAL) (map (\<lambda>r. local_hist (slices ! r)) order)))))"

subsection \<open>What the specification asks for\<close>

text \<open>The histogram of a sequence, said directly: bucket \<open>b\<close> holds the number of samples equal to \<open>b\<close>.\<close>

definition occurrences :: "u32 list \<Rightarrow> nat \<Rightarrow> nat" where
  "occurrences samples b = length (filter (\<lambda>v. unat v = b) samples)"

text \<open>
  The sparse object: one entry per listed bucket, key the decimal index in double quotes,
  value the decimal count, entries separated by commas, in braces, then a newline.
\<close>

definition json_entry :: "nat \<times> int \<Rightarrow> string" where
  "json_entry e = [CHR 0x22] @ show_nat (fst e) @ [CHR 0x22] @ '':'' @ show_int (snd e)"

fun join_commas :: "string list \<Rightarrow> string" where
  "join_commas [] = []"
| "join_commas [s] = s"
| "join_commas (s # t # ss) = s @ '','' @ join_commas (t # ss)"

definition sparse_json :: "(nat \<times> int) list \<Rightarrow> string" where
  "sparse_json entries = ''{'' @ join_commas (map json_entry entries) @ ''}'' @ [CHR 0x0A]"

text \<open>
  The decimal numeral of a number, said without the conversion routine: a non-empty string
  of the characters \<open>0\<close> to \<open>9\<close>, with no leading zero unless it is \<open>0\<close> itself, whose
  value, read digit by digit from the left in base ten, is the number.
\<close>

definition decimal_value :: "string \<Rightarrow> nat" where
  "decimal_value s = foldl (\<lambda>acc c. 10 * acc + (of_char c - of_char CHR ''0'')) 0 s"

definition is_decimal_of :: "string \<Rightarrow> nat \<Rightarrow> bool" where
  "is_decimal_of s n \<longleftrightarrow>
     s \<noteq> [] \<and> set s \<subseteq> set ''0123456789'' \<and> (hd s = CHR ''0'' \<longrightarrow> s = ''0'')
     \<and> decimal_value s = n"

text \<open>The buckets with a non-zero counter, and the buckets with a positive counter, in index order.\<close>

definition nonzero_entries :: "i32 list \<Rightarrow> (nat \<times> int) list" where
  "nonzero_entries h = map (\<lambda>i. (i, sint (h ! i))) (filter (\<lambda>i. h ! i \<noteq> 0) [0..<unat MAXVAL])"

definition positive_entries :: "i32 list \<Rightarrow> (nat \<times> int) list" where
  "positive_entries h = map (\<lambda>i. (i, sint (h ! i))) (filter (\<lambda>i. 0 <s h ! i) [0..<unat MAXVAL])"

section \<open>Properties\<close>

subsection \<open>Counting\<close>

lemma MAXVAL_1024: "MAXVAL = 1024" by (simp add: MAXVAL_def BITLEN_def)
lemma unat_MAXVAL: "unat MAXVAL = 1024" by (simp add: MAXVAL_def BITLEN_def)

lemma less_MAXVAL_iff: "v < MAXVAL \<longleftrightarrow> unat v < 1024"
  by (simp add: word_less_nat_alt unat_MAXVAL)

lemma occurrences_Nil: "occurrences [] b = 0"
  by (simp add: occurrences_def)

lemma occurrences_Cons:
  "occurrences (v # vs) b = (if unat v = b then 1 else 0) + occurrences vs b"
  by (simp add: occurrences_def)

lemma occurrences_append: "occurrences (xs @ ys) b = occurrences xs b + occurrences ys b"
  by (simp add: occurrences_def)

lemma length_hist_step: "length (hist_step h v) = length h"
  by (simp add: hist_step_def)

lemma hist_step_nth:
  "length h = 1024 \<Longrightarrow> b < 1024 \<Longrightarrow>
   hist_step h v ! b = h ! b + (if unat v = b then 1 else 0)"
  by (auto simp: hist_step_def less_MAXVAL_iff)

lemma length_foldl_hist_step: "length (foldl hist_step h vs) = length h"
  by (induction vs arbitrary: h) (simp_all add: length_hist_step)

lemma foldl_hist_step_nth:
  "length h = 1024 \<Longrightarrow> b < 1024 \<Longrightarrow>
   foldl hist_step h vs ! b = h ! b + of_nat (occurrences vs b)"
proof (induction vs arbitrary: h)
  case Nil
  then show ?case by (simp add: occurrences_Nil)
next
  case (Cons v vs)
  have "length (hist_step h v) = 1024"
    using Cons.prems(1) by (simp add: length_hist_step)
  from Cons.IH [OF this Cons.prems(2)] show ?case
    using Cons.prems by (simp add: hist_step_nth occurrences_Cons)
qed

lemma length_local_hist: "length (local_hist vs) = 1024"
  by (simp add: local_hist_def length_foldl_hist_step unat_MAXVAL)

lemma local_hist_nth: "b < 1024 \<Longrightarrow> local_hist vs ! b = of_nat (occurrences vs b)"
  by (simp add: local_hist_def foldl_hist_step_nth unat_MAXVAL)

subsection \<open>Scatter and reduce\<close>

lemma sint_of_nat_small: "n < 2147483648 \<Longrightarrow> sint (of_nat n :: 32 word) = int n"
  by (simp add: signed_of_nat signed_take_bit_int_eq_self_iff)

lemma length_scatter_blocks: "length (scatter_blocks xs n p) = p"
  by (induction p arbitrary: xs) simp_all

lemma scatter_blocks_nth:
  "r < p \<Longrightarrow> scatter_blocks xs n p ! r = take n (drop (r * n) xs)"
proof (induction p arbitrary: xs r)
  case 0
  then show ?case by simp
next
  case (Suc p)
  show ?case
  proof (cases r)
    case 0
    then show ?thesis by simp
  next
    case (Suc r')
    with Suc.prems have "r' < p" by simp
    from Suc.IH [OF this, of "drop n xs"] Suc show ?thesis
      by (simp add: add.commute)
  qed
qed

lemma concat_scatter_blocks: "concat (scatter_blocks xs n p) = take (p * n) xs"
proof (induction p arbitrary: xs)
  case 0
  then show ?case by simp
next
  case (Suc p)
  have "take n xs @ take (p * n) (drop n xs) = take (n + p * n) xs"
    by (simp add: take_add)
  with Suc show ?case by simp
qed

lemma length_scatter_block:
  "r < p \<Longrightarrow> p * n \<le> length xs \<Longrightarrow> length (scatter_blocks xs n p ! r) = n"
proof -
  assume r: "r < p" and le: "p * n \<le> length xs"
  from r have "Suc r \<le> p" by simp
  then have "Suc r * n \<le> p * n" by (rule mult_le_mono1)
  with le have "r * n + n \<le> length xs" by simp
  with r show ?thesis by (simp add: scatter_blocks_nth)
qed

lemma foldl_reduce_length:
  "\<forall>buf \<in> set bufs. c \<le> length buf \<Longrightarrow> length acc = c \<Longrightarrow>
   length (foldl (\<lambda>acc buf. map2 (+) acc (take c buf)) acc bufs) = c"
  by (induction bufs arbitrary: acc) simp_all

lemma foldl_reduce_nth:
  "\<forall>buf \<in> set bufs. c \<le> length buf \<Longrightarrow> length acc = c \<Longrightarrow> b < c \<Longrightarrow>
   foldl (\<lambda>acc buf. map2 (+) acc (take c buf)) acc bufs ! b
     = acc ! b + sum_list (map (\<lambda>buf. buf ! b) bufs)"
proof (induction bufs arbitrary: acc)
  case Nil
  then show ?case by simp
next
  case (Cons buf bufs)
  let ?acc = "map2 (+) acc (take c buf)"
  have len: "length ?acc = c" using Cons.prems by simp
  have nth: "?acc ! b = acc ! b + buf ! b" using Cons.prems by simp
  have "foldl (\<lambda>acc buf. map2 (+) acc (take c buf)) ?acc bufs ! b
          = ?acc ! b + sum_list (map (\<lambda>buf. buf ! b) bufs)"
    using Cons.prems by (intro Cons.IH len) simp_all
  with nth show ?case by (simp add: add.assoc)
qed

lemma length_MPI_Reduce_SUM:
  "\<forall>buf \<in> set bufs. c \<le> length buf \<Longrightarrow> length (MPI_Reduce_SUM c bufs) = c"
  by (simp add: MPI_Reduce_SUM_def foldl_reduce_length)

lemma MPI_Reduce_SUM_nth:
  "\<forall>buf \<in> set bufs. c \<le> length buf \<Longrightarrow> b < c \<Longrightarrow>
   MPI_Reduce_SUM c bufs ! b = sum_list (map (\<lambda>buf. buf ! b) bufs)"
  by (simp add: MPI_Reduce_SUM_def foldl_reduce_nth)

lemma occurrences_concat:
  "occurrences (concat xss) b = sum_list (map (\<lambda>xs. occurrences xs b) xss)"
  by (induction xss) (simp_all add: occurrences_Nil occurrences_append)

lemma reduce_local_hists_nth:
  "b < 1024 \<Longrightarrow>
   MPI_Reduce_SUM (unat MAXVAL) (map local_hist slices) ! b = of_nat (occurrences (concat slices) b)"
proof -
  assume b: "b < 1024"
  have "MPI_Reduce_SUM 1024 (map local_hist slices) ! b
          = sum_list (map (\<lambda>buf. buf ! b) (map local_hist slices))"
    using b by (intro MPI_Reduce_SUM_nth) (simp_all add: length_local_hist)
  also have "\<dots> = sum_list (map (\<lambda>xs. of_nat (occurrences xs b)) slices)"
    using b by (simp add: local_hist_nth comp_def)
  also have "\<dots> = of_nat (occurrences (concat slices) b)"
    by (induction slices) (simp_all add: occurrences_Nil occurrences_append)
  finally show ?thesis by (simp add: unat_MAXVAL)
qed

lemma length_reduce_local_hists:
  "length (MPI_Reduce_SUM (unat MAXVAL) (map local_hist slices)) = 1024"
  by (simp add: length_MPI_Reduce_SUM length_local_hist unat_MAXVAL)

lemma reduce_local_hists:
  "MPI_Reduce_SUM (unat MAXVAL) (map local_hist slices) = local_hist (concat slices)"
  by (rule nth_equalityI)
     (simp_all add: length_reduce_local_hists length_local_hist reduce_local_hists_nth local_hist_nth)

subsection \<open>Emitter\<close>

lemma join_commas_Cons:
  "join_commas (s # ss) = s @ concat (map (\<lambda>t. CHR '','' # t) ss)"
  by (induction ss arbitrary: s) simp_all

lemma emit_loop_unfold:
  "emit_loop h i first fout =
     fout @ (let es = map (\<lambda>i. json_entry (i, sint (h ! i))) (filter (\<lambda>i. 0 <s h ! i) [i..<1024])
             in if first then join_commas es else concat (map (\<lambda>t. CHR '','' # t) es))"
proof (induction h i first fout rule: emit_loop.induct)
  case (1 h i first fout)
  show ?case
  proof (cases "i < 1024")
    case False
    then show ?thesis
      by (subst emit_loop.simps) (simp add: unat_MAXVAL)
  next
    case True
    then have upt: "[i..<1024] = i # [Suc i..<1024]"
      by (simp add: upt_conv_Cons)
    from True have lt: "i < unat MAXVAL" by (simp add: unat_MAXVAL)
    show ?thesis
    proof (cases "0 <s h ! i")
      case pos: True
      have step: "emit_loop h i first fout =
              emit_loop h (i + 1) False
                (fout @ (if \<not> first then '','' else []) @ [CHR 0x22] @ show_nat i @ [CHR 0x22] @ '':''
                      @ show_int (sint (h ! i)))"
        using lt pos by (subst emit_loop.simps) simp
      show ?thesis
        unfolding step "1.IH"(1) [OF lt pos]
        using pos by (simp add: upt Let_def join_commas_Cons json_entry_def)
    next
      case neg: False
      have step: "emit_loop h i first fout = emit_loop h (i + 1) first fout"
        using lt neg by (subst emit_loop.simps) simp
      show ?thesis
        unfolding step "1.IH"(2) [OF lt neg]
        using neg by (simp add: upt Let_def)
    qed
  qed
qed

lemma emit_positive_entries: "emit h = sparse_json (positive_entries h)"
  by (simp add: emit_def sparse_json_def positive_entries_def emit_loop_unfold unat_MAXVAL comp_def)

subsection \<open>Local histogrammer\<close>

lemma hist_step_in_range:
  "v < MAXVAL \<Longrightarrow> hist_step h v = h[unat v := h ! unat v + 1]"
  by (simp add: hist_step_def)

lemma hist_step_out_of_range: "MAXVAL \<le> v \<Longrightarrow> hist_step h v = h"
  by (simp add: hist_step_def not_less [symmetric])

lemma local_hist_snoc: "local_hist (vs @ [v]) = hist_step (local_hist vs) v"
  by (simp add: local_hist_def)

lemma occurrences_le_length: "occurrences vs b \<le> length vs"
  by (simp add: occurrences_def)

text \<open>
  C3. The local histogram of a work slice has exactly 1024 counters; for every bucket
  \<open>b < 1024\<close> the counter at \<open>b\<close> is the number of samples of the slice equal to \<open>b\<close>. A
  further sample below 1024 adds one to its own counter and leaves the others; a further
  sample that is 1024 or more leaves the histogram as it is; 1023 is counted in bucket
  1023 and 1024 in none. A work slice is a receive buffer of \<open>MPI_Scatter\<close>, whose count is
  a C \<open>int\<close>, so its length is below \<open>2^31\<close> and no counter can overflow.
\<close>

theorem local_hist_counts:
  assumes "length local_data < 2147483648"
  shows "length (local_hist local_data) = 1024
       \<and> (\<forall>b<1024. sint (local_hist local_data ! b) = int (occurrences local_data b))
       \<and> (\<forall>v. v < 1024 \<longrightarrow>
              local_hist (local_data @ [v])
                = (local_hist local_data)[unat v := local_hist local_data ! unat v + 1])
       \<and> (\<forall>v. 1024 \<le> v \<longrightarrow> local_hist (local_data @ [v]) = local_hist local_data)
       \<and> local_hist (local_data @ [1023]) ! 1023 = local_hist local_data ! 1023 + 1
       \<and> local_hist (local_data @ [1024]) = local_hist local_data"
proof -
  have counts: "\<forall>b<1024. sint (local_hist local_data ! b) = int (occurrences local_data b)"
  proof (intro allI impI)
    fix b :: nat
    assume b: "b < 1024"
    have "occurrences local_data b \<le> length local_data"
      by (rule occurrences_le_length)
    with assms have "occurrences local_data b < 2147483648" by linarith
    then show "sint (local_hist local_data ! b) = int (occurrences local_data b)"
      using b by (simp add: local_hist_nth sint_of_nat_small)
  qed
  have inr: "\<forall>v. v < 1024 \<longrightarrow>
              local_hist (local_data @ [v])
                = (local_hist local_data)[unat v := local_hist local_data ! unat v + 1]"
    by (simp add: local_hist_snoc hist_step_in_range MAXVAL_1024)
  have out: "\<forall>v. 1024 \<le> v \<longrightarrow> local_hist (local_data @ [v]) = local_hist local_data"
    by (simp add: local_hist_snoc hist_step_out_of_range MAXVAL_1024)
  have top: "local_hist (local_data @ [1023]) ! 1023 = local_hist local_data ! 1023 + 1"
    by (simp add: local_hist_snoc hist_step_in_range MAXVAL_1024 length_local_hist)
  from counts inr out top show ?thesis
    by (simp add: length_local_hist)
qed

theorem local_hist_counts_witness:
  "length [7, 7, 1024, 1023 :: u32] < 2147483648
   \<and> length (local_hist [7, 7, 1024, 1023]) = 1024
   \<and> sint (local_hist [7, 7, 1024, 1023] ! 7) = 2
   \<and> sint (local_hist [7, 7, 1024, 1023] ! 1023) = 1
   \<and> sint (local_hist [7, 7, 1024, 1023] ! 0) = 0
   \<and> local_hist [7, 7, 1024, 1023, 1024] = local_hist [7, 7, 1024, 1023]"
  using local_hist_counts [of "[7, 7, 1024, 1023]"]
  by (simp add: occurrences_def)

subsection \<open>Reduction of the slices\<close>

lemma scatter_blocks_partition:
  "W dvd length S \<Longrightarrow> concat (scatter_blocks S (length S div W) W) = S"
  by (simp add: concat_scatter_blocks)

lemma occurrences_mono_concat:
  "xs \<in> set xss \<Longrightarrow> occurrences xs b \<le> occurrences (concat xss) b"
  by (induction xss) (auto simp: occurrences_append intro: trans_le_add2)

lemma sum_list_sint_local_hists:
  assumes b: "b < 1024" and small: "occurrences (concat slices) b < 2147483648"
  shows "(\<Sum>h\<leftarrow>map local_hist slices. sint (h ! b)) = int (occurrences (concat slices) b)"
proof -
  have "\<And>xs. xs \<in> set slices \<Longrightarrow> sint (local_hist xs ! b) = int (occurrences xs b)"
  proof -
    fix xs assume "xs \<in> set slices"
    then have "occurrences xs b \<le> occurrences (concat slices) b"
      by (rule occurrences_mono_concat)
    with small have "occurrences xs b < 2147483648" by linarith
    then show "sint (local_hist xs ! b) = int (occurrences xs b)"
      using b by (simp add: local_hist_nth sint_of_nat_small)
  qed
  then have "(\<Sum>h\<leftarrow>map local_hist slices. sint (h ! b)) = (\<Sum>xs\<leftarrow>slices. int (occurrences xs b))"
    by (simp add: comp_def cong: map_cong)
  also have "\<dots> = int (occurrences (concat slices) b)"
    by (induction slices) (simp_all add: occurrences_Nil occurrences_append)
  finally show ?thesis .
qed

subsection \<open>Entries of the emitted object\<close>

lemma pos_iff_sint: "0 <s (x :: i32) \<longleftrightarrow> 0 < sint x"
  by (simp add: word_sless_alt)

lemma nonneg_pos_iff_nonzero: "0 \<le> sint (x :: i32) \<Longrightarrow> 0 <s x \<longleftrightarrow> x \<noteq> 0"
  using signed_eq_0_iff [of x, where ?'a = int] by (auto simp: pos_iff_sint)

lemma nonzero_entries_nonneg:
  assumes "\<forall>i<1024. 0 \<le> sint (h ! i)"
  shows "nonzero_entries h = positive_entries h"
proof -
  have "filter (\<lambda>i. h ! i \<noteq> 0) [0..<1024] = filter (\<lambda>i. 0 <s h ! i) [0..<1024]"
    using assms by (intro filter_cong refl) (simp add: nonneg_pos_iff_nonzero)
  then show ?thesis
    by (simp add: nonzero_entries_def positive_entries_def unat_MAXVAL)
qed

lemma keys_nonzero_entries:
  "map fst (nonzero_entries h) = filter (\<lambda>i. h ! i \<noteq> 0) [0..<1024]"
  by (simp add: nonzero_entries_def unat_MAXVAL comp_def)

lemma keys_positive_entries:
  "map fst (positive_entries h) = filter (\<lambda>i. 0 <s h ! i) [0..<1024]"
  by (simp add: positive_entries_def unat_MAXVAL comp_def)

lemma sorted_filter_upt: "sorted_wrt (<) (filter P [m..<n])"
  by (rule sorted_wrt_filter) (rule sorted_wrt_upt)

lemma positive_entries_all_nonpositive:
  "\<forall>i<1024. \<not> 0 <s h ! i \<Longrightarrow> positive_entries h = []"
  by (simp add: positive_entries_def unat_MAXVAL filter_empty_conv)

lemma emit_all_nonpositive:
  "\<forall>i<1024. \<not> 0 <s h ! i \<Longrightarrow> emit h = ''{}'' @ [CHR 0x0A]"
  by (simp add: emit_positive_entries positive_entries_all_nonpositive sparse_json_def)

lemma digit_char_not_newline: "d < 10 \<Longrightarrow> digit_char d \<noteq> CHR 0x0A"
proof
  assume d: "d < 10" and eq: "digit_char d = CHR 0x0A"
  from eq have "of_char (digit_char d) = (of_char (CHR 0x0A) :: nat)" by simp
  with d show False by (simp add: digit_char_def)
qed

lemma newline_notin_show_nat: "CHR 0x0A \<notin> set (show_nat n)"
proof (induction n rule: show_nat.induct)
  case (1 n)
  show ?case
  proof (cases "n < 10")
    case True
    then show ?thesis
      using digit_char_not_newline [of n] by (subst show_nat.simps) auto
  next
    case False
    have "n mod 10 < 10" by simp
    then have "digit_char (n mod 10) \<noteq> CHR 0x0A" by (rule digit_char_not_newline)
    with False "1.IH" show ?thesis
      by (subst show_nat.simps) auto
  qed
qed

lemma newline_notin_show_int: "CHR 0x0A \<notin> set (show_int k)"
  by (simp add: show_int_def newline_notin_show_nat)

lemma newline_notin_json_entry: "CHR 0x0A \<notin> set (json_entry e)"
  by (simp add: json_entry_def newline_notin_show_nat newline_notin_show_int)

lemma newline_notin_join_commas:
  "\<forall>s \<in> set ss. CHR 0x0A \<notin> set s \<Longrightarrow> CHR 0x0A \<notin> set (join_commas ss)"
  by (induction ss rule: join_commas.induct) simp_all

lemma sparse_json_one_line:
  "CHR 0x0A \<notin> set (butlast (sparse_json es)) \<and> last (sparse_json es) = CHR 0x0A"
proof -
  have "CHR 0x0A \<notin> set (join_commas (map json_entry es))"
    by (rule newline_notin_join_commas) (simp add: newline_notin_json_entry)
  then show ?thesis
    by (simp add: sparse_json_def butlast_append)
qed

subsection \<open>Signed counts and the pipeline\<close>

lemma sint_as_uint:
  "sint (c :: 32 word) = (uint c + 2147483648) mod 4294967296 - 2147483648"
  using int_word_sint [of "uint c", where ?'a = 32] by simp

lemma uint_lt_2p32: "uint (c :: 32 word) < 4294967296"
  using uint_bounded [of c] by simp

lemma sint_small: "uint (c :: 32 word) < 2147483648 \<Longrightarrow> sint c = uint c"
proof -
  assume small: "uint c < 2147483648"
  have "0 \<le> uint c" by simp
  with small have "(uint c + 2147483648) mod 4294967296 = uint c + 2147483648"
    by (intro mod_pos_pos_trivial) linarith+
  then show ?thesis by (simp add: sint_as_uint)
qed

lemma sint_big: "2147483648 \<le> uint (c :: 32 word) \<Longrightarrow> sint c = uint c - 4294967296"
proof -
  assume big: "2147483648 \<le> uint c"
  have eq: "uint c + 2147483648 = (uint c - 2147483648) + 4294967296" by simp
  have "(uint c - 2147483648) mod 4294967296 = uint c - 2147483648"
    using big uint_lt_2p32 [of c] by (intro mod_pos_pos_trivial) linarith+
  then have "(uint c - 2147483648 + 4294967296) mod 4294967296 = uint c - 2147483648"
    by (simp only: mod_add_self2)
  then have "(uint c + 2147483648) mod 4294967296 = uint c - 2147483648"
    by (simp only: eq)
  then show ?thesis by (simp add: sint_as_uint)
qed

lemma unat_less_word: "unat (c :: 32 word) < 2147483648 \<longleftrightarrow> c < 2147483648"
  by (simp add: word_less_nat_alt)

lemma uint_less_word: "uint (c :: 32 word) < 2147483648 \<longleftrightarrow> c < 2147483648"
  by (simp add: word_less_alt)

lemma sless_0_iff: "(c :: 32 word) <s 0 \<longleftrightarrow> \<not> unat c < 2147483648"
proof (cases "uint c < 2147483648")
  case True
  have "0 \<le> uint c" by simp
  with True have "\<not> sint c < 0" by (simp add: sint_small)
  with True show ?thesis
    by (simp add: word_sless_alt unat_less_word uint_less_word)
next
  case False
  then have "sint c = uint c - 4294967296" by (intro sint_big) simp
  with uint_lt_2p32 [of c] have "sint c < 0" by simp
  with False show ?thesis
    by (simp add: word_sless_alt unat_less_word uint_less_word)
qed

lemma nat_sint_nonneg: "\<not> (c :: 32 word) <s 0 \<Longrightarrow> nat (sint c) = unat c"
proof -
  assume "\<not> c <s 0"
  then have "uint c < 2147483648"
    by (simp add: sless_0_iff unat_less_word uint_less_word)
  then have "sint c = uint c" by (rule sint_small)
  then show ?thesis by simp
qed

lemma MPI_Scatter_ok:
  "\<not> c <s 0 \<Longrightarrow> MPI_Scatter buf c W = Inr (scatter_blocks buf (unat c) W)"
  by (simp add: MPI_Scatter_def nat_sint_nonneg)

lemma MPI_Scatter_negative: "c <s 0 \<Longrightarrow> MPI_Scatter buf c W = Inl MPI_ERR_COUNT"
  by (simp add: MPI_Scatter_def)

lemma global_histogram_ok:
  assumes "\<not> (total_count div of_nat W) <s 0"
  shows "global_histogram total_count data W
           = Inr (local_hist (take (W * unat (total_count div of_nat W)) data))"
  using assms
  by (simp add: global_histogram_def Let_def MPI_Scatter_ok reduce_local_hists concat_scatter_blocks)

lemma global_histogram_error:
  "(total_count div of_nat W) <s 0 \<Longrightarrow> global_histogram total_count data W = Inl MPI_ERR_COUNT"
  by (simp add: global_histogram_def Let_def MPI_Scatter_negative)

lemma unat_local_n:
  "W < 4294967296 \<Longrightarrow> unat ((total_count :: u32) div of_nat W) = unat total_count div W"
  by (simp add: unat_div unat_of_nat)

lemma local_hist_Nil: "local_hist [] = replicate 1024 0"
  by (simp add: local_hist_def unat_MAXVAL)

lemma emit_zero: "emit (replicate 1024 0) = ''{}'' @ [CHR 0x0A]"
  by (rule emit_all_nonpositive) simp

subsection \<open>Reader\<close>

lemma tellg_Some: "tellg (Some bytes) = int (length bytes)"
  by (simp add: tellg_def)

lemma tellg_None: "tellg None = - 1"
  by (simp add: tellg_def)

lemma count_of_pos_minus_1: "count_of_pos (- 1) = 4294967295"
  by (simp add: count_of_pos_def)

lemma ucast_of_nat_64_32: "ucast (of_nat m :: 64 word) = (of_nat m :: 32 word)"
  by (rule bit_word_eqI) (auto simp: bit_simps)

lemma count_of_pos_nat:
  assumes "n < 18446744073709551616"
  shows "count_of_pos (int n) = of_nat (n div 4)"
proof -
  have "unat ((of_nat n :: 64 word) div 4) = n div 4"
    using assms by (simp add: unat_div unat_of_nat)
  then have "(of_nat n :: 64 word) div 4 = of_nat (n div 4)"
    by (metis of_nat_unat ucast_id)
  then show ?thesis
    by (simp add: count_of_pos_def ucast_of_nat_64_32)
qed

lemma length_u32_elements: "length (u32_elements bs) = length bs div 4"
  by (induction bs rule: u32_elements.induct) simp_all

lemma u32_elements_nth:
  "i < length bs div 4 \<Longrightarrow>
   u32_elements bs ! i
     = native_u32 (bs ! (4 * i)) (bs ! (4 * i + 1)) (bs ! (4 * i + 2)) (bs ! (4 * i + 3))"
proof (induction bs arbitrary: i rule: u32_elements.induct)
  case (1 b0 b1 b2 b3 bs)
  show ?case
  proof (cases i)
    case 0
    then show ?thesis by simp
  next
    case (Suc j)
    with "1.prems" have "j < length bs div 4" by simp
    from "1.IH" [OF this] Suc show ?thesis by (simp add: add.commute)
  qed
qed simp_all

lemma u32_elements_take:
  "u32_elements (take (4 * (length bs div 4)) bs) = u32_elements bs"
proof (induction bs rule: u32_elements.induct)
  case (1 b0 b1 b2 b3 bs)
  have "4 * (length (b0 # b1 # b2 # b3 # bs) div 4) = Suc (Suc (Suc (Suc (4 * (length bs div 4)))))"
    by simp presburger
  with "1.IH" show ?case by (simp del: length_Cons)
qed simp_all

lemma native_u32_zero: "native_u32 0 0 0 0 = 0"
  by (simp add: native_u32_def word_rcat_def)

lemma replicate_4: "replicate (Suc n * 4) x = x # x # x # x # replicate (n * 4) x"
proof -
  have "Suc n * 4 = Suc (Suc (Suc (Suc (n * 4))))" by simp
  then show ?thesis by (simp only: replicate.simps)
qed

lemma u32_elements_zero: "u32_elements (replicate (n * 4) 0) = replicate n 0"
proof (induction n)
  case 0
  then show ?case by simp
next
  case (Suc n)
  then show ?case
    by (simp only: replicate_4 u32_elements.simps native_u32_zero replicate.simps)
qed

lemma fin_read_None: "fin_read None storage n = storage"
  by (simp add: fin_read_def)

lemma fin_read_Some:
  "length storage = n \<Longrightarrow> n \<le> length bytes \<Longrightarrow> fin_read (Some bytes) storage n = take n bytes"
  by (simp add: fin_read_def)

lemma read_input_None: "read_input None = (4294967295, replicate 4294967295 0)"
proof -
  have "unat (4294967295 :: u32) = 4294967295" by simp
  then show ?thesis
    by (simp only: read_input_def tellg_None count_of_pos_minus_1 fin_read_None u32_elements_zero
        Let_def)
qed

lemma read_input_Some:
  assumes "length bytes div 4 < 4294967296"
  shows "read_input (Some bytes) = (of_nat (length bytes div 4), u32_elements bytes)"
proof -
  let ?n = "length bytes div 4"
  from assms have "length bytes < 18446744073709551616" by linarith
  then have tc: "count_of_pos (tellg (Some bytes)) = of_nat ?n"
    by (simp add: tellg_Some count_of_pos_nat)
  have un: "unat (of_nat ?n :: u32) = ?n"
    using assms by (simp add: unat_of_nat)
  have "?n * 4 \<le> length bytes" by simp
  then have "fin_read (Some bytes) (replicate (?n * 4) 0) (?n * 4) = take (?n * 4) bytes"
    by (intro fin_read_Some) simp_all
  then show ?thesis
    using u32_elements_take [of bytes]
    by (simp add: read_input_def tc un Let_def mult.commute)
qed

subsection \<open>Fewer elements than ranks\<close>

lemma pipeline_ok:
  "\<not> (total_count div of_nat W) <s 0 \<Longrightarrow>
   pipeline total_count data W
     = Inr (emit (local_hist (take (W * unat (total_count div of_nat W)) data)))"
  by (simp add: pipeline_def global_histogram_ok)

lemma scatter_blocks_zero: "scatter_blocks buf 0 W = replicate W []"
  by (induction W arbitrary: buf) simp_all

lemma local_n_zero:
  assumes "unat (total_count :: u32) < W" and "W < 2147483648"
  shows "total_count div of_nat W = 0"
proof -
  from assms(2) have "W < 4294967296" by linarith
  then have "unat (total_count div of_nat W) = unat total_count div W"
    by (rule unat_local_n)
  with assms(1) have "unat (total_count div of_nat W) = 0" by simp
  then show ?thesis by (simp add: unat_eq_0)
qed

text \<open>
  C10. When the total count is below the number of ranks, the quotient \<open>local_n\<close> is 0,
  every rank receives the empty slice, the global histogram is all zero whatever the data
  are, and the output is \<open>{}\<close> and a newline; so it is for get\_counts.cpp on any readable
  file of fewer than \<open>W\<close> complete elements.
\<close>

theorem fewer_elements_than_ranks:
  assumes "unat total_count < W" and "W < 2147483648"
  shows "total_count div of_nat W = 0
       \<and> MPI_Scatter data (total_count div of_nat W) W = Inr (replicate W [])
       \<and> global_histogram total_count data W = Inr (replicate 1024 0)
       \<and> pipeline total_count data W = Inr (''{}'' @ [CHR 0x0A])
       \<and> (\<forall>bytes. length bytes div 4 < W \<longrightarrow>
             get_counts (Some bytes) W = Inr (''{}'' @ [CHR 0x0A]))"
proof -
  have zero: "\<And>tc :: u32. unat tc < W \<Longrightarrow> tc div of_nat W = 0"
    using assms(2) by (simp add: local_n_zero)
  have pipe: "\<And>(tc :: u32) d. unat tc < W \<Longrightarrow> pipeline tc d W = Inr (''{}'' @ [CHR 0x0A])"
    by (simp add: pipeline_ok zero local_hist_Nil emit_zero)
  have files: "\<forall>bytes. length bytes div 4 < W \<longrightarrow>
                get_counts (Some bytes) W = Inr (''{}'' @ [CHR 0x0A])"
  proof (intro allI impI)
    fix bytes :: "byte list"
    assume few: "length bytes div 4 < W"
    with assms(2) have small: "length bytes div 4 < 4294967296" by linarith
    then have "unat (of_nat (length bytes div 4) :: u32) = length bytes div 4"
      by (simp add: unat_of_nat)
    with few have "unat (of_nat (length bytes div 4) :: u32) < W" by simp
    then show "get_counts (Some bytes) W = Inr (''{}'' @ [CHR 0x0A])"
      by (simp add: get_counts_def read_input_Some [OF small] pipe)
  qed
  from assms(1) have z: "total_count div of_nat W = 0" by (rule zero)
  have "MPI_Scatter data (0 :: i32) W = Inr (replicate W [])"
    by (simp add: MPI_Scatter_ok scatter_blocks_zero)
  moreover have "global_histogram total_count data W = Inr (replicate 1024 0)"
    by (simp add: global_histogram_ok z local_hist_Nil)
  ultimately show ?thesis
    using z pipe [OF assms(1)] files by simp
qed

theorem fewer_elements_than_ranks_witness:
  "unat (2 :: u32) < 3 \<and> (3 :: nat) < 2147483648
   \<and> (2 :: u32) div of_nat 3 = 0
   \<and> MPI_Scatter [5, 9 :: u32] (2 div of_nat 3) 3 = Inr [[], [], []]
   \<and> pipeline 2 [5, 9] 3 = Inr (''{}'' @ [CHR 0x0A])
   \<and> length [5, 0, 0, 0, 9, 0, 0, 0 :: byte] div 4 < 3
   \<and> get_counts (Some [5, 0, 0, 0, 9, 0, 0, 0]) 3 = Inr (''{}'' @ [CHR 0x0A])"
proof -
  have a: "unat (2 :: u32) < 3" and b: "(3 :: nat) < 2147483648"
    by simp_all
  have c: "length [5, 0, 0, 0, 9, 0, 0, 0 :: byte] div 4 < 3"
    by simp
  have r: "replicate 3 [] = [[], [], [] :: u32 list]"
    by (simp add: numeral_3_eq_3)
  note all = fewer_elements_than_ranks [OF a b, of "[5, 9]"]
  from all have files: "\<forall>bytes :: byte list. length bytes div 4 < 3 \<longrightarrow>
                         get_counts (Some bytes) 3 = Inr (''{}'' @ [CHR 0x0A])"
    by (elim conjE)
  from files c have "get_counts (Some [5, 0, 0, 0, 9, 0, 0, 0]) 3 = Inr (''{}'' @ [CHR 0x0A])"
    by blast
  with all a b c r show ?thesis
    by simp
qed

subsection \<open>Sparse JSON emitter on non-negative histograms\<close>

lemma pipeline_empty: "pipeline 0 [] W = Inr (''{}'' @ [CHR 0x0A])"
  by (simp add: pipeline_ok local_hist_Nil emit_zero)

lemma show_nat_digit: "n < 10 \<Longrightarrow> show_nat n = [digit_char n]"
  by (subst show_nat.simps) simp

lemma of_char_digit_char: "d < 10 \<Longrightarrow> (of_char (digit_char d) :: nat) = 48 + d"
  by (simp add: digit_char_def)

lemma digit_chars:
  "digit_char 0 = CHR ''0''" "digit_char 1 = CHR ''1''" "digit_char (Suc 0) = CHR ''1''" "digit_char 2 = CHR ''2''"
  "digit_char 3 = CHR ''3''" "digit_char 4 = CHR ''4''" "digit_char 5 = CHR ''5''"
  "digit_char 6 = CHR ''6''" "digit_char 7 = CHR ''7''" "digit_char 8 = CHR ''8''"
  "digit_char 9 = CHR ''9''"
  by code_simp+

lemma digit_char_in_digits: "d < 10 \<Longrightarrow> digit_char d \<in> set ''0123456789''"
proof -
  assume "d < 10"
  then have "d = 0 \<or> d = 1 \<or> d = 2 \<or> d = 3 \<or> d = 4 \<or> d = 5 \<or> d = 6 \<or> d = 7 \<or> d = 8 \<or> d = 9"
    by arith
  then show ?thesis
    by (elim disjE) (simp_all add: digit_chars)
qed

lemma digit_char_zero_iff: "d < 10 \<Longrightarrow> digit_char d = CHR ''0'' \<longleftrightarrow> d = 0"
proof
  assume d: "d < 10" and eq: "digit_char d = CHR ''0''"
  from eq have "(of_char (digit_char d) :: nat) = of_char CHR ''0''" by simp
  with d show "d = 0" by (simp add: of_char_digit_char)
next
  assume "d = 0"
  then show "digit_char d = CHR ''0''" by (simp add: digit_chars)
qed

lemma show_nat_step:
  "\<not> n < 10 \<Longrightarrow> show_nat n = show_nat (n div 10) @ [digit_char (n mod 10)]"
  by (subst show_nat.simps) simp

lemma show_nat_nonempty: "show_nat n \<noteq> []"
  by (subst show_nat.simps) simp

lemma show_nat_digits: "set (show_nat n) \<subseteq> set ''0123456789''"
proof (induction n rule: show_nat.induct)
  case (1 n)
  show ?case
  proof (cases "n < 10")
    case True
    then show ?thesis
      using digit_char_in_digits [of n] by (simp only: show_nat_digit) simp
  next
    case False
    have "n mod 10 < 10" by simp
    then have "digit_char (n mod 10) \<in> set ''0123456789''" by (rule digit_char_in_digits)
    with "1.IH" [OF False] show ?thesis
      by (simp only: show_nat_step [OF False]) simp
  qed
qed

lemma hd_show_nat_zero_iff: "hd (show_nat n) = CHR ''0'' \<longleftrightarrow> n = 0"
proof (induction n rule: show_nat.induct)
  case (1 n)
  show ?case
  proof (cases "n < 10")
    case True
    then show ?thesis
      by (simp add: show_nat_digit digit_char_zero_iff)
  next
    case False
    then have "n div 10 \<noteq> 0" by simp
    with "1.IH" [OF False] have "hd (show_nat (n div 10)) \<noteq> CHR ''0''" by simp
    moreover have "hd (show_nat n) = hd (show_nat (n div 10))"
      by (simp add: show_nat_step [OF False] show_nat_nonempty)
    ultimately show ?thesis using False by simp
  qed
qed

lemma decimal_value_snoc:
  "decimal_value (s @ [c]) = 10 * decimal_value s + (of_char c - of_char CHR ''0'')"
  by (simp add: decimal_value_def)

lemma decimal_value_digit: "d < 10 \<Longrightarrow> decimal_value [digit_char d] = d"
  by (simp add: decimal_value_def of_char_digit_char)

lemma decimal_value_show_nat: "decimal_value (show_nat n) = n"
proof (induction n rule: show_nat.induct)
  case (1 n)
  show ?case
  proof (cases "n < 10")
    case True
    then show ?thesis by (simp add: show_nat_digit decimal_value_digit)
  next
    case False
    have "(of_char (digit_char (n mod 10)) :: nat) - of_char CHR ''0'' = n mod 10"
      by (simp add: of_char_digit_char)
    with "1.IH" [OF False] show ?thesis
      by (simp add: show_nat_step [OF False] decimal_value_snoc)
  qed
qed

lemma show_nat_is_decimal: "is_decimal_of (show_nat n) n"
proof -
  have "hd (show_nat n) = CHR ''0'' \<longrightarrow> show_nat n = ''0''"
  proof
    assume "hd (show_nat n) = CHR ''0''"
    then have "n = 0" by (simp add: hd_show_nat_zero_iff)
    then show "show_nat n = ''0''" by (simp add: show_nat_digit digit_chars)
  qed
  then show ?thesis
    unfolding is_decimal_of_def
    using show_nat_nonempty [of n] show_nat_digits [of n] decimal_value_show_nat [of n]
    by blast
qed

lemma show_int_nonneg: "0 \<le> k \<Longrightarrow> show_int k = show_nat (nat k)"
  by (simp add: show_int_def)

lemma json_entry_decimal:
  assumes "0 \<le> snd e"
  shows "\<exists>key count. json_entry e = [CHR 0x22] @ key @ [CHR 0x22] @ '':'' @ count
           \<and> is_decimal_of key (fst e) \<and> is_decimal_of count (nat (snd e))"
proof (intro exI conjI)
  show "json_entry e = [CHR 0x22] @ show_nat (fst e) @ [CHR 0x22] @ '':'' @ show_nat (nat (snd e))"
    using assms by (simp add: json_entry_def show_int_nonneg)
  show "is_decimal_of (show_nat (fst e)) (fst e)"
    by (rule show_nat_is_decimal)
  show "is_decimal_of (show_nat (nat (snd e))) (nat (snd e))"
    by (rule show_nat_is_decimal)
qed

text \<open>
  C4. For a global histogram of 1024 counters, none negative, the emitter writes one
  line: an opening brace, one entry per bucket whose counter is not zero, in ascending
  order of the bucket index, the entries separated by single commas with none after the
  last, a closing brace and a newline, which is the only newline. Each entry is a double
  quote, the decimal numeral of the bucket index, a double quote, a colon and the decimal
  numeral of the counter, a decimal numeral being a non-empty string of the digits 0 to 9
  without a leading zero whose value in base ten is the number. When every counter is
  zero, and so when the input is empty, the line is \<open>{}\<close>.
\<close>

theorem emit_nonnegative_histogram:
  assumes "length global_hist = 1024" and "\<forall>i<1024. 0 \<le> sint (global_hist ! i)"
  shows "emit global_hist = sparse_json (nonzero_entries global_hist)
       \<and> map fst (nonzero_entries global_hist) = filter (\<lambda>i. global_hist ! i \<noteq> 0) [0..<1024]
       \<and> sorted_wrt (<) (map fst (nonzero_entries global_hist))
       \<and> (\<forall>e \<in> set (nonzero_entries global_hist). snd e = sint (global_hist ! fst e))
       \<and> (\<forall>e \<in> set (nonzero_entries global_hist).
             0 < snd e
             \<and> (\<exists>key count.
                   json_entry e = [CHR 0x22] @ key @ [CHR 0x22] @ '':'' @ count
                   \<and> is_decimal_of key (fst e) \<and> is_decimal_of count (nat (snd e))))
       \<and> (\<forall>n. is_decimal_of (show_nat n) n)
       \<and> (\<forall>k. 0 \<le> k \<longrightarrow> show_int k = show_nat (nat k))
       \<and> CHR 0x0A \<notin> set (butlast (emit global_hist))
       \<and> last (emit global_hist) = CHR 0x0A
       \<and> ((\<forall>i<1024. global_hist ! i = 0) \<longrightarrow> emit global_hist = ''{}'' @ [CHR 0x0A])
       \<and> (\<forall>W. pipeline 0 [] W = Inr (''{}'' @ [CHR 0x0A]))"
proof -
  have eq: "emit global_hist = sparse_json (nonzero_entries global_hist)"
    using assms(2) by (simp add: emit_positive_entries nonzero_entries_nonneg)
  have keys: "map fst (nonzero_entries global_hist) = filter (\<lambda>i. global_hist ! i \<noteq> 0) [0..<1024]"
    by (rule keys_nonzero_entries)
  have asc: "sorted_wrt (<) (map fst (nonzero_entries global_hist))"
    unfolding keys by (rule sorted_filter_upt)
  have vals: "\<forall>e \<in> set (nonzero_entries global_hist). snd e = sint (global_hist ! fst e)"
    by (auto simp: nonzero_entries_def)
  have pos: "\<forall>e \<in> set (nonzero_entries global_hist). 0 < snd e"
  proof
    fix e assume "e \<in> set (nonzero_entries global_hist)"
    then obtain i where i: "i < 1024" and nz: "global_hist ! i \<noteq> 0" and e: "e = (i, sint (global_hist ! i))"
      by (auto simp: nonzero_entries_def unat_MAXVAL)
    from assms(2) i have "0 \<le> sint (global_hist ! i)" by simp
    with nz have "0 <s global_hist ! i" by (simp add: nonneg_pos_iff_nonzero)
    then show "0 < snd e" by (simp add: e pos_iff_sint)
  qed
  have dec: "\<forall>e \<in> set (nonzero_entries global_hist).
               0 < snd e
               \<and> (\<exists>key count.
                     json_entry e = [CHR 0x22] @ key @ [CHR 0x22] @ '':'' @ count
                     \<and> is_decimal_of key (fst e) \<and> is_decimal_of count (nat (snd e)))"
  proof
    fix e assume "e \<in> set (nonzero_entries global_hist)"
    with pos have p: "0 < snd e" by blast
    then have "0 \<le> snd e" by simp
    with p show "0 < snd e
               \<and> (\<exists>key count.
                     json_entry e = [CHR 0x22] @ key @ [CHR 0x22] @ '':'' @ count
                     \<and> is_decimal_of key (fst e) \<and> is_decimal_of count (nat (snd e)))"
      using json_entry_decimal [of e] by blast
  qed
  have nats: "\<forall>n. is_decimal_of (show_nat n) n"
    by (simp add: show_nat_is_decimal)
  have ints: "\<forall>k. 0 \<le> k \<longrightarrow> show_int k = show_nat (nat k)"
    by (simp add: show_int_nonneg)
  have line: "CHR 0x0A \<notin> set (butlast (emit global_hist)) \<and> last (emit global_hist) = CHR 0x0A"
    unfolding eq by (rule sparse_json_one_line)
  have zero: "(\<forall>i<1024. global_hist ! i = 0) \<longrightarrow> emit global_hist = ''{}'' @ [CHR 0x0A]"
  proof
    assume "\<forall>i<1024. global_hist ! i = 0"
    then have "\<forall>i<1024. \<not> 0 <s global_hist ! i" by simp
    then show "emit global_hist = ''{}'' @ [CHR 0x0A]" by (rule emit_all_nonpositive)
  qed
  have empty: "\<forall>W. pipeline 0 [] W = Inr (''{}'' @ [CHR 0x0A])"
    by (simp add: pipeline_empty)
  from eq keys asc vals dec nats ints line zero empty show ?thesis
    by blast
qed

theorem emit_nonnegative_histogram_witness:
  "length ((replicate 1024 0)[3 := 120, 512 := 4, 1023 := 2147483647 :: i32]) = 1024
   \<and> 0 \<le> sint ((replicate 1024 0)[3 := 120, 512 := 4, 1023 := 2147483647 :: i32] ! 1023)
   \<and> nonzero_entries ((replicate 1024 0)[3 := 120, 512 := 4, 1023 := 2147483647])
       = [(3, 120), (512, 4), (1023, 2147483647)]
   \<and> emit ((replicate 1024 0)[3 := 120, 512 := 4, 1023 := 2147483647])
       = ''{'' @ [CHR 0x22] @ ''3'' @ [CHR 0x22] @ '':120,''
               @ [CHR 0x22] @ ''512'' @ [CHR 0x22] @ '':4,''
               @ [CHR 0x22] @ ''1023'' @ [CHR 0x22] @ '':2147483647}'' @ [CHR 0x0A]
   \<and> is_decimal_of ''512'' 512
   \<and> is_decimal_of ''2147483647'' 2147483647
   \<and> emit (replicate 1024 0) = [CHR ''{'', CHR ''}'', CHR 0x0A]"
proof -
  let ?h = "(replicate 1024 0)[3 := 120, 512 := 4, 1023 := 2147483647 :: i32]"
  have len: "length ?h = 1024" by simp
  have nth: "\<And>i. i < 1024 \<Longrightarrow>
      ?h ! i = (if i = 1023 then 2147483647 else if i = 512 then 4 else if i = 3 then 120 else 0)"
    by (simp add: nth_list_update)
  have nonneg: "\<forall>i<1024. 0 \<le> sint (?h ! i)"
    by (simp add: nth)
  have "set (filter (\<lambda>i. ?h ! i \<noteq> 0) [0..<1024]) = set [3, 512, 1023]"
    by (auto simp: nth split: if_splits)
  moreover have "sorted (filter (\<lambda>i. ?h ! i \<noteq> 0) [0..<1024])"
    and "distinct (filter (\<lambda>i. ?h ! i \<noteq> 0) [0..<1024])"
    by (simp_all add: sorted_wrt_filter)
  moreover have "sorted [3, 512, 1023 :: nat]" and "distinct [3, 512, 1023 :: nat]"
    by simp_all
  ultimately have "filter (\<lambda>i. ?h ! i \<noteq> 0) [0..<1024] = [3, 512, 1023]"
    by (intro sorted_distinct_set_unique)
  then have entries: "nonzero_entries ?h = [(3, 120), (512, 4), (1023, 2147483647)]"
    by (simp add: nonzero_entries_def unat_MAXVAL nth)
  have digits: "show_nat 3 = ''3''" "show_nat 120 = ''120''" "show_nat 512 = ''512''"
    "show_nat 4 = ''4''" "show_nat 1023 = ''1023''" "show_nat 2147483647 = ''2147483647''"
    by (simp_all add: show_nat_step show_nat_digit digit_chars)
  have json: "sparse_json [(3, 120), (512, 4), (1023, 2147483647)]
                = ''{'' @ [CHR 0x22] @ ''3'' @ [CHR 0x22] @ '':120,''
                        @ [CHR 0x22] @ ''512'' @ [CHR 0x22] @ '':4,''
                        @ [CHR 0x22] @ ''1023'' @ [CHR 0x22] @ '':2147483647}'' @ [CHR 0x0A]"
    by (simp add: sparse_json_def json_entry_def show_int_def digits)
  note all = emit_nonnegative_histogram [OF len nonneg]
  from all have "emit ?h = sparse_json (nonzero_entries ?h)"
    by (elim conjE)
  then have e: "emit ?h = ''{'' @ [CHR 0x22] @ ''3'' @ [CHR 0x22] @ '':120,''
                        @ [CHR 0x22] @ ''512'' @ [CHR 0x22] @ '':4,''
                        @ [CHR 0x22] @ ''1023'' @ [CHR 0x22] @ '':2147483647}'' @ [CHR 0x0A]"
    by (simp only: entries json)
  from all have dec: "\<forall>n. is_decimal_of (show_nat n) n"
    by (elim conjE)
  from dec have "is_decimal_of (show_nat 512) 512" by (rule spec)
  then have d1: "is_decimal_of ''512'' 512" by (simp only: digits)
  from dec have "is_decimal_of (show_nat 2147483647) 2147483647" by (rule spec)
  then have d2: "is_decimal_of ''2147483647'' 2147483647" by (simp only: digits)
  have len0: "length (replicate 1024 (0 :: i32)) = 1024" by simp
  have nonneg0: "\<forall>i<1024. 0 \<le> sint (replicate 1024 (0 :: i32) ! i)" by simp
  have zero: "\<forall>i<1024. replicate 1024 (0 :: i32) ! i = 0" by simp
  from emit_nonnegative_histogram [OF len0 nonneg0]
  have "(\<forall>i<1024. replicate 1024 (0 :: i32) ! i = 0)
          \<longrightarrow> emit (replicate 1024 0) = ''{}'' @ [CHR 0x0A]"
    by (elim conjE)
  with zero have e0: "emit (replicate 1024 0) = [CHR ''{'', CHR ''}'', CHR 0x0A]"
    by simp
  have n1023: "0 \<le> sint (?h ! 1023)" by (simp add: nth)
  from len n1023 entries e d1 d2 e0 show ?thesis
    by blast
qed

subsection \<open>Emitted buckets\<close>

lemma positive_entries_keys_iff:
  "i < 1024 \<Longrightarrow> i \<in> fst ` set (positive_entries h) \<longleftrightarrow> 0 < sint (h ! i)"
  by (auto simp: positive_entries_def unat_MAXVAL pos_iff_sint image_iff)

text \<open>
  C9. For a global histogram of 1024 signed counters the emitter writes exactly the
  entries of the buckets whose counter is greater than zero as a signed 32-bit value: a
  bucket below 1024 has an entry if and only if its counter is positive, a bucket whose
  counter is zero or negative (as after a wrapped sum) has none, and every count written
  is strictly positive and is the counter of its bucket.
\<close>

theorem emitted_iff_positive:
  assumes "length global_hist = 1024"
  shows "emit global_hist = sparse_json (positive_entries global_hist)
       \<and> (\<forall>i<1024. i \<in> fst ` set (positive_entries global_hist) \<longleftrightarrow> 0 < sint (global_hist ! i))
       \<and> (\<forall>i<1024. sint (global_hist ! i) \<le> 0 \<longrightarrow> i \<notin> fst ` set (positive_entries global_hist))
       \<and> (\<forall>e \<in> set (positive_entries global_hist).
             fst e < 1024 \<and> snd e = sint (global_hist ! fst e) \<and> 0 < snd e)
       \<and> sorted_wrt (<) (map fst (positive_entries global_hist))"
proof -
  have keys: "\<forall>i<1024. i \<in> fst ` set (positive_entries global_hist) \<longleftrightarrow> 0 < sint (global_hist ! i)"
    by (simp add: positive_entries_keys_iff)
  then have omitted: "\<forall>i<1024. sint (global_hist ! i) \<le> 0 \<longrightarrow> i \<notin> fst ` set (positive_entries global_hist)"
    by auto
  have vals: "\<forall>e \<in> set (positive_entries global_hist).
                fst e < 1024 \<and> snd e = sint (global_hist ! fst e) \<and> 0 < snd e"
    by (auto simp: positive_entries_def unat_MAXVAL pos_iff_sint)
  have asc: "sorted_wrt (<) (map fst (positive_entries global_hist))"
    unfolding keys_positive_entries by (rule sorted_filter_upt)
  have "emit global_hist = sparse_json (positive_entries global_hist)"
    by (rule emit_positive_entries)
  with keys omitted vals asc show ?thesis
    by blast
qed

theorem emitted_iff_positive_witness:
  "length (MPI_Reduce_SUM 1024 [(replicate 1024 0)[0 := 1073741824, 7 := 4],
                               (replicate 1024 0)[0 := 1073741824]]) = 1024
   \<and> sint (MPI_Reduce_SUM 1024 [(replicate 1024 0)[0 := 1073741824, 7 := 4],
                                 (replicate 1024 0)[0 := 1073741824]] ! 0) = - 2147483648
   \<and> 0 \<notin> fst ` set (positive_entries
                        (MPI_Reduce_SUM 1024 [(replicate 1024 0)[0 := 1073741824, 7 := 4],
                                              (replicate 1024 0)[0 := 1073741824]]))
   \<and> 1 \<notin> fst ` set (positive_entries
                        (MPI_Reduce_SUM 1024 [(replicate 1024 0)[0 := 1073741824, 7 := 4],
                                              (replicate 1024 0)[0 := 1073741824]]))
   \<and> 7 \<in> fst ` set (positive_entries
                        (MPI_Reduce_SUM 1024 [(replicate 1024 0)[0 := 1073741824, 7 := 4],
                                              (replicate 1024 0)[0 := 1073741824]]))"
proof -
  let ?a = "(replicate 1024 0)[0 := 1073741824, 7 := 4 :: i32]"
  let ?b = "(replicate 1024 0)[0 := 1073741824 :: i32]"
  let ?g = "MPI_Reduce_SUM 1024 [?a, ?b]"
  have bufs: "\<forall>buf \<in> set [?a, ?b]. 1024 \<le> length buf" by simp
  have len: "length ?g = 1024"
    using bufs by (rule length_MPI_Reduce_SUM)
  have nth: "\<And>b. b < 1024 \<Longrightarrow> ?g ! b = ?a ! b + ?b ! b"
    using MPI_Reduce_SUM_nth [OF bufs] by simp
  have g0: "sint (?g ! 0) = - 2147483648" by (simp add: nth)
  have g1: "sint (?g ! 1) = 0" by (simp add: nth)
  have g7: "sint (?g ! 7) = 4" by (simp add: nth)
  note all = emitted_iff_positive [OF len]
  from all have keys: "\<forall>i<1024. i \<in> fst ` set (positive_entries ?g) \<longleftrightarrow> 0 < sint (?g ! i)"
    by (elim conjE)
  from keys g0 have k0: "0 \<notin> fst ` set (positive_entries ?g)" by simp
  from keys g1 have k1: "1 \<notin> fst ` set (positive_entries ?g)" by simp
  from keys g7 have k7: "7 \<in> fst ` set (positive_entries ?g)" by simp
  from len g0 k0 k1 k7 show ?thesis by (simp only: simp_thms)
qed

subsection \<open>Distributor\<close>

lemma scatter_block_nth:
  assumes "r < W" and "j < n" and "W * n \<le> length buf"
  shows "scatter_blocks buf n W ! r ! j = buf ! (r * n + j)"
proof -
  from assms(1) have "Suc r \<le> W" by simp
  then have "Suc r * n \<le> W * n" by (rule mult_le_mono1)
  with assms(3) have "r * n + n \<le> length buf" by simp
  with assms(2) have "r * n + j < length buf" by linarith
  with assms(1,2) show ?thesis
    by (simp add: scatter_blocks_nth)
qed

text \<open>
  C5, as the code has it. Let \<open>W\<close> ranks share \<open>N\<close> samples and let the quotient \<open>N / W\<close>
  fit a C \<open>int\<close>, as it does whenever there are two ranks or more. Then \<open>local_n\<close> is the
  integer quotient, \<open>MPI_Scatter\<close> delivers exactly \<open>W\<close> slices, slice \<open>r\<close> holds the
  \<open>local_n\<close> samples at the indices from \<open>r * local_n\<close> up to \<open>(r + 1) * local_n\<close>, the slices
  together are the first \<open>W * local_n\<close> samples, the last \<open>N mod W\<close> samples go to no rank,
  and the global histogram is the histogram of the samples without that tail.
\<close>

theorem scatter_slices:
  assumes "0 < W" and "W < 2147483648"
    and "length data = unat total_count"
    and "unat total_count div W < 2147483648"
  shows "unat (total_count div of_nat W) = unat total_count div W
       \<and> MPI_Scatter data (total_count div of_nat W) W
           = Inr (scatter_blocks data (unat total_count div W) W)
       \<and> length (scatter_blocks data (unat total_count div W) W) = W
       \<and> (\<forall>r<W. scatter_blocks data (unat total_count div W) W ! r
                   = take (unat total_count div W) (drop (r * (unat total_count div W)) data)
                 \<and> length (scatter_blocks data (unat total_count div W) W ! r)
                   = unat total_count div W)
       \<and> (\<forall>r<W. \<forall>j<unat total_count div W.
             scatter_blocks data (unat total_count div W) W ! r ! j
               = data ! (r * (unat total_count div W) + j))
       \<and> concat (scatter_blocks data (unat total_count div W) W)
           = take (W * (unat total_count div W)) data
       \<and> length (drop (W * (unat total_count div W)) data) = unat total_count mod W
       \<and> global_histogram total_count data W
           = Inr (local_hist (take (W * (unat total_count div W)) data))"
proof -
  let ?n = "unat total_count div W"
  from assms(2) have "W < 4294967296" by linarith
  then have n: "unat (total_count div of_nat W) = ?n"
    by (rule unat_local_n)
  with assms(4) have ok: "\<not> (total_count div of_nat W) <s 0"
    by (simp add: sless_0_iff)
  have fits: "W * ?n \<le> length data"
    using assms(3) by simp
  have scat: "MPI_Scatter data (total_count div of_nat W) W = Inr (scatter_blocks data ?n W)"
    using ok by (simp add: MPI_Scatter_ok n)
  have slices: "\<forall>r<W. scatter_blocks data ?n W ! r = take ?n (drop (r * ?n) data)
                      \<and> length (scatter_blocks data ?n W ! r) = ?n"
  proof (intro allI impI conjI)
    fix r assume r: "r < W"
    then show "scatter_blocks data ?n W ! r = take ?n (drop (r * ?n) data)"
      by (rule scatter_blocks_nth)
    from r fits show "length (scatter_blocks data ?n W ! r) = ?n"
      by (rule length_scatter_block)
  qed
  have elems: "\<forall>r<W. \<forall>j<?n. scatter_blocks data ?n W ! r ! j = data ! (r * ?n + j)"
    using fits by (simp add: scatter_block_nth)
  have tail: "length (drop (W * ?n) data) = unat total_count mod W"
    using assms(3) by (simp add: minus_mult_div_eq_mod)
  have hist: "global_histogram total_count data W = Inr (local_hist (take (W * ?n) data))"
    using global_histogram_ok [OF ok] by (simp add: n)
  have len: "length (scatter_blocks data ?n W) = W"
    by (rule length_scatter_blocks)
  have cat: "concat (scatter_blocks data ?n W) = take (W * ?n) data"
    by (rule concat_scatter_blocks)
  from n scat len slices elems cat tail hist show ?thesis
    by blast
qed

theorem scatter_slices_witness:
  "(0 :: nat) < 3 \<and> (3 :: nat) < 2147483648
   \<and> length [1, 1, 1, 2, 2, 2, 3, 3, 3, 4 :: u32] = unat (10 :: u32)
   \<and> unat (10 :: u32) div 3 < 2147483648
   \<and> unat ((10 :: u32) div of_nat 3) = 3
   \<and> MPI_Scatter [1, 1, 1, 2, 2, 2, 3, 3, 3, 4 :: u32] (10 div of_nat 3) 3
       = Inr [[1, 1, 1], [2, 2, 2], [3, 3, 3]]
   \<and> drop (3 * 3) [1, 1, 1, 2, 2, 2, 3, 3, 3, 4 :: u32] = [4]
   \<and> global_histogram 10 [1, 1, 1, 2, 2, 2, 3, 3, 3, 4] 3
       = Inr (local_hist [1, 1, 1, 2, 2, 2, 3, 3, 3])
   \<and> sint (local_hist [1, 1, 1, 2, 2, 2, 3, 3, 3] ! 4) = 0
   \<and> length [1, 1, 1, 2, 2, 2, 3, 3, 3 :: u32] = 9"
proof -
  let ?data = "[1, 1, 1, 2, 2, 2, 3, 3, 3, 4 :: u32]"
  have w: "(0 :: nat) < 3" and i: "(3 :: nat) < 2147483648"
    and l: "length ?data = unat (10 :: u32)" and q: "unat (10 :: u32) div 3 < 2147483648"
    by simp_all
  have n: "unat (10 :: u32) div 3 = 3" by simp
  have blocks: "scatter_blocks ?data 3 3 = [[1, 1, 1], [2, 2, 2], [3, 3, 3]]"
    by (simp add: numeral_3_eq_3)
  have kept: "take (3 * 3) ?data = [1, 1, 1, 2, 2, 2, 3, 3, 3]" by simp
  have tail: "drop (3 * 3) ?data = [4]" by simp
  have four: "sint (local_hist [1, 1, 1, 2, 2, 2, 3, 3, 3] ! 4) = 0"
    by (simp add: local_hist_nth occurrences_def)
  note all = scatter_slices [OF w i l q, unfolded n blocks kept]
  from all have "unat ((10 :: u32) div of_nat 3) = 3"
    by (elim conjE)
  moreover from all have "MPI_Scatter ?data (10 div of_nat 3) 3 = Inr [[1, 1, 1], [2, 2, 2], [3, 3, 3]]"
    by (elim conjE)
  moreover from all have "global_histogram 10 ?data 3 = Inr (local_hist [1, 1, 1, 2, 2, 2, 3, 3, 3])"
    by (elim conjE)
  moreover have "length [1, 1, 1, 2, 2, 2, 3, 3, 3 :: u32] = 9" by simp
  ultimately show ?thesis
    using w i l q tail four by blast
qed

text \<open>
  C5 as stated fails for one rank and \<open>2^31\<close> samples: \<open>local_n\<close> is \<open>2^31\<close>, which is
  negative as the \<open>int\<close> count of \<open>MPI_Scatter\<close>, and no slice is distributed.
\<close>

theorem scatter_slices_counterexample:
  "(2147483648 :: u32) div of_nat 1 = 2147483648
   \<and> MPI_Scatter (replicate 2147483648 (0 :: u32)) (2147483648 div of_nat 1) 1 = Inl MPI_ERR_COUNT
   \<and> pipeline 2147483648 (replicate 2147483648 0) 1 = Inl MPI_ERR_COUNT"
proof -
  have d: "(2147483648 :: u32) div of_nat 1 = 2147483648" by simp
  have neg: "(2147483648 :: i32) <s 0" by (simp add: sless_0_iff)
  then have "MPI_Scatter (replicate 2147483648 (0 :: u32)) 2147483648 1 = Inl MPI_ERR_COUNT"
    by (rule MPI_Scatter_negative)
  moreover from neg have "global_histogram 2147483648 (replicate 2147483648 0) 1 = Inl MPI_ERR_COUNT"
    by (intro global_histogram_error) (simp only: d)
  ultimately show ?thesis
    by (simp only: d pipeline_def sum.case simp_thms)
qed

subsection \<open>Sum of the emitted counts\<close>

lemma int_sum_list: "(\<Sum>x\<leftarrow>xs. int (f x)) = int (\<Sum>x\<leftarrow>xs. f x)"
  by (induction xs) simp_all

lemma sum_list_indicator_upt:
  "(\<Sum>b\<leftarrow>[0..<n]. if k = b then 1 else 0) = (if k < n then 1 else (0 :: nat))"
  by (induction n) auto

lemma sum_occurrences:
  "(\<Sum>b\<leftarrow>[0..<1024]. occurrences S b) = length (filter (\<lambda>v. v < MAXVAL) S)"
proof (induction S)
  case Nil
  then show ?case by (simp add: occurrences_Nil)
next
  case (Cons v S)
  have "(\<Sum>b\<leftarrow>[0..<1024]. occurrences (v # S) b)
          = (\<Sum>b\<leftarrow>[0..<1024]. if unat v = b then 1 else 0) + (\<Sum>b\<leftarrow>[0..<1024]. occurrences S b)"
    by (simp only: occurrences_Cons sum_list_addf)
  also have "\<dots> = (if unat v < 1024 then 1 else 0) + length (filter (\<lambda>v. v < MAXVAL) S)"
    by (simp only: sum_list_indicator_upt Cons.IH)
  finally show ?case
    by (simp add: less_MAXVAL_iff)
qed

lemma sum_positive_entries:
  assumes "\<forall>b<1024. occurrences S b < 2147483648"
  shows "sum_list (map snd (positive_entries (local_hist S))) = int (length (filter (\<lambda>v. v < MAXVAL) S))"
proof -
  have val: "\<And>b. b \<in> set [0..<1024] \<Longrightarrow> sint (local_hist S ! b) = int (occurrences S b)"
    using assms by (simp add: local_hist_nth sint_of_nat_small)
  have "sum_list (map snd (positive_entries (local_hist S)))
          = (\<Sum>b\<leftarrow>filter (\<lambda>i. 0 <s local_hist S ! i) [0..<1024]. sint (local_hist S ! b))"
    by (simp add: positive_entries_def unat_MAXVAL comp_def)
  also have "\<dots> = (\<Sum>b\<leftarrow>[0..<1024]. sint (local_hist S ! b))"
  proof (rule sum_list_map_filter)
    fix b
    assume "b \<in> set [0..<1024]" and "\<not> 0 <s local_hist S ! b"
    then show "sint (local_hist S ! b) = 0"
      by (simp add: pos_iff_sint val)
  qed
  also have "\<dots> = (\<Sum>b\<leftarrow>[0..<1024]. int (occurrences S b))"
  proof -
    have "map (\<lambda>b. sint (local_hist S ! b)) [0..<1024] = map (\<lambda>b. int (occurrences S b)) [0..<1024]"
      by (rule map_cong [OF refl]) (rule val)
    then show ?thesis by (simp only:)
  qed
  also have "\<dots> = int (\<Sum>b\<leftarrow>[0..<1024]. occurrences S b)"
    by (rule int_sum_list)
  finally show ?thesis
    by (simp only: sum_occurrences)
qed

lemma occurrences_replicate:
  "occurrences (replicate n v) b = (if unat v = b then n else 0)"
  by (simp add: occurrences_def)

lemma pipeline_whole:
  assumes "W < 2147483648" and "W dvd length S" and "length S < 4294967296"
    and "length S div W < 2147483648"
  shows "global_histogram (of_nat (length S)) S W = Inr (local_hist S)"
proof -
  let ?tc = "of_nat (length S) :: u32"
  have tc: "unat ?tc = length S"
    using assms(3) by (simp add: unat_of_nat)
  from assms(1) have "W < 4294967296" by linarith
  then have n: "unat (?tc div of_nat W) = length S div W"
    by (simp add: unat_local_n tc)
  with assms(4) have ok: "\<not> (?tc div of_nat W) <s 0"
    by (simp add: sless_0_iff)
  from assms(2) have "W * (length S div W) = length S" by simp
  with global_histogram_ok [OF ok, of S] show ?thesis
    by (simp add: n)
qed

text \<open>
  C2, as the code has it. Let \<open>S\<close> hold fewer than \<open>2^32\<close> samples, so that its length
  fits \<open>total_count\<close>, let the number \<open>W\<close> of ranks, a positive C \<open>int\<close>, divide that
  length, let the slice length \<open>|S| / W\<close> fit a C \<open>int\<close> and let no bucket hold \<open>2^31\<close>
  samples or more. Then the global histogram is the histogram of \<open>S\<close>, the output is the
  object of its positive counters, and the counts written add up to the number of samples
  below 1024; samples of 1024 or more add nothing.
\<close>

theorem emitted_counts_sum:
  assumes "0 < W" and "W < 2147483648"
    and "W dvd length S" and "length S < 4294967296"
    and "length S div W < 2147483648"
    and "\<forall>b<1024. occurrences S b < 2147483648"
  shows "global_histogram (of_nat (length S)) S W = Inr (local_hist S)
       \<and> pipeline (of_nat (length S)) S W = Inr (sparse_json (positive_entries (local_hist S)))
       \<and> sum_list (map snd (positive_entries (local_hist S)))
           = int (length (filter (\<lambda>v. v < 1024) S))
       \<and> sum_list (map snd (positive_entries (local_hist S)))
           = int (length S) - int (length (filter (\<lambda>v. 1024 \<le> v) S))"
proof -
  have g: "global_histogram (of_nat (length S)) S W = Inr (local_hist S)"
    using assms(2-5) by (rule pipeline_whole)
  then have p: "pipeline (of_nat (length S)) S W = Inr (sparse_json (positive_entries (local_hist S)))"
    by (simp add: pipeline_def emit_positive_entries)
  have s: "sum_list (map snd (positive_entries (local_hist S)))
             = int (length (filter (\<lambda>v. v < 1024) S))"
    using sum_positive_entries [OF assms(6)] by (simp add: MAXVAL_1024)
  have "length S = length (filter (\<lambda>v. v < 1024) S) + length (filter (\<lambda>v. \<not> v < 1024) S)"
    by (rule sum_length_filter_compl [symmetric])
  then have "int (length (filter (\<lambda>v. v < 1024) S))
               = int (length S) - int (length (filter (\<lambda>v. 1024 \<le> v) S))"
    by (simp add: not_less)
  with g p s show ?thesis by simp
qed

theorem emitted_counts_sum_witness:
  "(0 :: nat) < 1 \<and> (1 :: nat) < 2147483648
   \<and> 1 dvd length [0, 1, 1, 2, 1023, 1024, 2000 :: u32]
   \<and> length [0, 1, 1, 2, 1023, 1024, 2000 :: u32] < 4294967296
   \<and> length [0, 1, 1, 2, 1023, 1024, 2000 :: u32] div 1 < 2147483648
   \<and> occurrences [0, 1, 1, 2, 1023, 1024, 2000] 1 < 2147483648
   \<and> global_histogram 7 [0, 1, 1, 2, 1023, 1024, 2000] 1
       = Inr (local_hist [0, 1, 1, 2, 1023, 1024, 2000])
   \<and> sum_list (map snd (positive_entries (local_hist [0, 1, 1, 2, 1023, 1024, 2000]))) = 5"
proof -
  let ?S = "[0, 1, 1, 2, 1023, 1024, 2000 :: u32]"
  have h1: "(0 :: nat) < 1" and h2: "(1 :: nat) < 2147483648" and h3: "1 dvd length ?S"
    and h4: "length ?S < 4294967296" and h5: "length ?S div 1 < 2147483648"
    by simp_all
  have h6: "\<forall>b<1024. occurrences ?S b < 2147483648"
  proof (intro allI impI)
    fix b :: nat
    have "occurrences ?S b \<le> length ?S" by (rule occurrences_le_length)
    then show "occurrences ?S b < 2147483648" by simp
  qed
  have tc: "of_nat (length ?S) = (7 :: u32)" by simp
  have cnt: "int (length (filter (\<lambda>v. v < 1024) ?S)) = 5" by simp
  note all = emitted_counts_sum [OF h1 h2 h3 h4 h5 h6, unfolded tc cnt]
  from all have "global_histogram 7 ?S 1 = Inr (local_hist ?S)"
    by (elim conjE)
  moreover from all have "sum_list (map snd (positive_entries (local_hist ?S))) = 5"
    by (elim conjE)
  moreover from h6 have "occurrences ?S 1 < 2147483648" by simp
  ultimately show ?thesis
    using h1 h2 h3 h4 h5 by blast
qed

text \<open>
  C2 as stated fails once a bucket reaches \<open>2^31\<close>: \<open>2^31\<close> samples of value 0 on two
  ranks give two local counters of \<open>2^30\<close> whose 32-bit sum is negative, so bucket 0 is not
  written and the written counts add up to 0.
\<close>

theorem emitted_counts_sum_counterexample:
  "2 dvd length (replicate 2147483648 (0 :: u32))
   \<and> global_histogram 2147483648 (replicate 2147483648 0) 2
       = Inr (local_hist (replicate 2147483648 0))
   \<and> sint (local_hist (replicate 2147483648 0) ! 0) = - 2147483648
   \<and> pipeline 2147483648 (replicate 2147483648 0) 2 = Inr (''{}'' @ [CHR 0x0A])
   \<and> sum_list (map snd (positive_entries (local_hist (replicate 2147483648 0)))) = 0
   \<and> length (filter (\<lambda>v. v < 1024) (replicate 2147483648 (0 :: u32))) = 2147483648"
proof -
  let ?S = "replicate 2147483648 (0 :: u32)"
  have len: "length ?S = 2147483648" by (rule length_replicate)
  have d: "2 dvd length ?S" by (simp only: len) simp
  have tc: "(of_nat (length ?S) :: u32) = 2147483648" by (simp only: len) simp
  have g: "global_histogram 2147483648 ?S 2 = Inr (local_hist ?S)"
    using pipeline_whole [of 2 ?S] by (simp only: tc len) simp
  have nth: "\<And>b. b < 1024 \<Longrightarrow> local_hist ?S ! b = (if b = 0 then 2147483648 else 0)"
    by (simp add: local_hist_nth occurrences_replicate)
  have zero: "sint (local_hist ?S ! 0) = - 2147483648"
    by (simp add: nth)
  have nonpos: "\<forall>i<1024. \<not> 0 <s local_hist ?S ! i"
    by (simp add: nth pos_iff_sint)
  then have none: "positive_entries (local_hist ?S) = []"
    by (rule positive_entries_all_nonpositive)
  from nonpos have e: "emit (local_hist ?S) = ''{}'' @ [CHR 0x0A]"
    by (rule emit_all_nonpositive)
  have p: "pipeline 2147483648 ?S 2 = Inr (''{}'' @ [CHR 0x0A])"
    by (simp only: pipeline_def g sum.case e)
  have f: "length (filter (\<lambda>v. v < 1024) ?S) = 2147483648"
    by (simp only: filter_replicate) simp
  from d g zero p f show ?thesis
    by (simp only: none) simp
qed

subsection \<open>Binary reader on a readable file\<close>

text \<open>
  C6, as the code has it. For a readable file of fewer than \<open>2^32\<close> complete 4-byte
  elements the reader's count is the byte size divided by 4, rounded down, and the buffer
  holds exactly that many elements, element \<open>i\<close> made of the bytes \<open>4i\<close> to \<open>4i + 3\<close> of the
  file in native order; bytes after the last complete element are not read, and the reader
  has no error result.
\<close>

theorem read_input_elements:
  assumes "length bytes div 4 < 4294967296"
  shows "fst (read_input (Some bytes)) = of_nat (length bytes div 4)
       \<and> unat (fst (read_input (Some bytes))) = length bytes div 4
       \<and> length (snd (read_input (Some bytes))) = length bytes div 4
       \<and> (\<forall>i < length bytes div 4.
             snd (read_input (Some bytes)) ! i
               = native_u32 (bytes ! (4 * i)) (bytes ! (4 * i + 1))
                            (bytes ! (4 * i + 2)) (bytes ! (4 * i + 3)))
       \<and> read_input (Some bytes) = read_input (Some (take (4 * (length bytes div 4)) bytes))"
proof -
  let ?n = "length bytes div 4"
  note r = read_input_Some [OF assms]
  have un: "unat (of_nat ?n :: u32) = ?n"
    using assms by (simp add: unat_of_nat)
  have elems: "\<forall>i < ?n. u32_elements bytes ! i
                 = native_u32 (bytes ! (4 * i)) (bytes ! (4 * i + 1))
                              (bytes ! (4 * i + 2)) (bytes ! (4 * i + 3))"
    by (simp add: u32_elements_nth)
  let ?cut = "take (4 * ?n) bytes"
  have "4 * ?n \<le> length bytes" by simp
  then have lc: "length ?cut = 4 * ?n" by simp
  then have "length ?cut div 4 = ?n" by simp
  with assms have "read_input (Some ?cut) = (of_nat ?n, u32_elements ?cut)"
    using read_input_Some [of ?cut] by simp
  then have same: "read_input (Some bytes) = read_input (Some ?cut)"
    by (simp add: r u32_elements_take)
  have c: "fst (read_input (Some bytes)) = of_nat ?n"
    by (simp only: r fst_conv)
  have u: "unat (fst (read_input (Some bytes))) = ?n"
    by (simp only: c un)
  have l: "length (snd (read_input (Some bytes))) = ?n"
    by (simp only: r snd_conv length_u32_elements)
  have e: "\<forall>i < ?n. snd (read_input (Some bytes)) ! i
             = native_u32 (bytes ! (4 * i)) (bytes ! (4 * i + 1))
                          (bytes ! (4 * i + 2)) (bytes ! (4 * i + 3))"
    using elems by (simp only: r snd_conv)
  from c u l e same show ?thesis
    by blast
qed

theorem read_input_elements_witness:
  "length [7, 0, 0, 0, 1, 2, 3, 4, 9, 9 :: byte] div 4 < 4294967296
   \<and> read_input (Some [7, 0, 0, 0, 1, 2, 3, 4, 9, 9]) = (2, [7, 67305985])
   \<and> read_input (Some [7, 0, 0, 0, 1, 2, 3, 4, 9, 9]) = read_input (Some [7, 0, 0, 0, 1, 2, 3, 4])"
proof -
  let ?bytes = "[7, 0, 0, 0, 1, 2, 3, 4, 9, 9 :: byte]"
  have h: "length ?bytes div 4 < 4294967296" by simp
  have n: "length ?bytes div 4 = 2" by simp
  have cut: "take (4 * 2) ?bytes = [7, 0, 0, 0, 1, 2, 3, 4]" by simp
  have e0: "native_u32 7 0 0 0 = 7" and e1: "native_u32 1 2 3 4 = 67305985"
    by (simp_all add: native_u32_def word_rcat_def)
  note all = read_input_elements [OF h, unfolded n cut]
  from all have c: "fst (read_input (Some ?bytes)) = of_nat 2"
    by (elim conjE)
  from all have l: "length (snd (read_input (Some ?bytes))) = 2"
    by (elim conjE)
  from all have "\<forall>i<2. snd (read_input (Some ?bytes)) ! i
                   = native_u32 (?bytes ! (4 * i)) (?bytes ! (4 * i + 1))
                                (?bytes ! (4 * i + 2)) (?bytes ! (4 * i + 3))"
    by (elim conjE)
  then have i0: "snd (read_input (Some ?bytes)) ! 0 = 7"
    and i1: "snd (read_input (Some ?bytes)) ! 1 = 67305985"
    by (simp_all add: e0 e1)
  from l i0 i1 have d: "snd (read_input (Some ?bytes)) = [7, 67305985]"
    by (cases "snd (read_input (Some ?bytes))"; cases "tl (snd (read_input (Some ?bytes)))") auto
  from all have s: "read_input (Some ?bytes) = read_input (Some [7, 0, 0, 0, 1, 2, 3, 4])"
    by (elim conjE)
  from c d have "read_input (Some ?bytes) = (2, [7, 67305985])"
    by (cases "read_input (Some ?bytes)") simp
  with h s show ?thesis by blast
qed

text \<open>
  C6 as stated fails for a file of \<open>2^34\<close> bytes: its \<open>2^32\<close> elements do not fit the
  \<open>uint32_t\<close> count, which wraps to 0, and nothing is read.
\<close>

theorem read_input_elements_counterexample:
  "length (replicate 17179869184 (0 :: byte)) div 4 = 4294967296
   \<and> read_input (Some (replicate 17179869184 0)) = (0, [])"
proof -
  let ?bytes = "replicate 17179869184 (0 :: byte)"
  have len: "length ?bytes = 17179869184" by (rule length_replicate)
  have pos: "tellg (Some ?bytes) = 17179869184"
    by (simp only: tellg_Some len of_nat_numeral)
  have cnt: "count_of_pos 17179869184 = 0"
    by (simp add: count_of_pos_def)
  have "read_input (Some ?bytes) = (0, [])"
    by (simp only: read_input_def pos cnt Let_def) (simp add: fin_read_def)
  moreover have "length ?bytes div 4 = 4294967296"
    by (simp only: len)
  ultimately show ?thesis by blast
qed

subsection \<open>Binary reader on a file that cannot be opened\<close>

lemma read_input_zeros:
  "read_input (Some (replicate (4294967295 * 4) 0)) = (4294967295, replicate 4294967295 0)"
proof -
  let ?bytes = "replicate (4294967295 * 4) (0 :: byte)"
  have len: "length ?bytes div 4 = 4294967295"
    by (simp only: length_replicate)
  then have "length ?bytes div 4 < 4294967296" by (simp only:)
  then have "read_input (Some ?bytes) = (of_nat (length ?bytes div 4), u32_elements ?bytes)"
    by (rule read_input_Some)
  then show ?thesis
    by (simp only: len u32_elements_zero) simp
qed

lemma pipeline_unopened_1:
  "pipeline 4294967295 (replicate 4294967295 0) 1 = Inl MPI_ERR_COUNT"
proof -
  have "(4294967295 :: u32) div of_nat 1 <s 0"
    by (simp add: sless_0_iff)
  then have "global_histogram 4294967295 (replicate 4294967295 0) 1 = Inl MPI_ERR_COUNT"
    by (rule global_histogram_error)
  then show ?thesis
    by (simp only: pipeline_def sum.case)
qed

lemma pipeline_unopened_2:
  "pipeline 4294967295 (replicate 4294967295 0) 2 = Inr (''{}'' @ [CHR 0x0A])"
proof -
  have q: "(4294967295 :: u32) div of_nat 2 = 2147483647" by simp
  have ok: "\<not> (4294967295 :: u32) div of_nat 2 <s 0"
    by (simp only: q) (simp add: sless_0_iff)
  have kept: "take (2 * unat ((4294967295 :: u32) div of_nat 2)) (replicate 4294967295 (0 :: u32))
                = replicate 4294967294 0"
    by (simp only: q take_replicate) simp
  have nth: "\<And>b. b < 1024 \<Longrightarrow>
               local_hist (replicate 4294967294 0) ! b = (if b = 0 then 4294967294 else 0)"
    by (simp add: local_hist_nth occurrences_replicate)
  have "\<forall>i<1024. \<not> 0 <s local_hist (replicate 4294967294 0) ! i"
    by (simp add: nth pos_iff_sint)
  then have "emit (local_hist (replicate 4294967294 0)) = ''{}'' @ [CHR 0x0A]"
    by (rule emit_all_nonpositive)
  with pipeline_ok [OF ok, of "replicate 4294967295 0"] show ?thesis
    by (simp only: kept)
qed

lemma read_input_in_enough:
  "unat (count_of_pos (tellg fin)) \<le> avail \<Longrightarrow> read_input_in avail fin = Inr (read_input fin)"
  by (simp add: read_input_in_def read_input_def Let_def not_less [symmetric])

lemma read_input_in_short:
  "avail < unat (count_of_pos (tellg fin)) \<Longrightarrow> read_input_in avail fin = Inl bad_alloc"
  by (simp add: read_input_in_def Let_def)

lemma unopened_count: "unat (count_of_pos (tellg None)) = 4294967295"
  by (simp only: tellg_None count_of_pos_minus_1) simp

lemma zeros_count: "unat (count_of_pos (tellg (Some (replicate (4294967295 * 4) (0 :: byte))))) = 4294967295"
proof -
  have "length (replicate (4294967295 * 4) (0 :: byte)) < 18446744073709551616"
    by (simp only: length_replicate)
  then have "count_of_pos (tellg (Some (replicate (4294967295 * 4) (0 :: byte))))
               = of_nat (length (replicate (4294967295 * 4) (0 :: byte)) div 4)"
    by (simp only: tellg_Some count_of_pos_nat)
  then show ?thesis
    by (simp only: length_replicate) simp
qed

text \<open>
  C7, as the code has it. When the file cannot be opened the reader reports no such
  thing: the failed stream gives the position \<open>-1\<close> and the count derived from it is
  \<open>2^32 - 1\<close>. In a process that cannot allocate that many elements \<open>resize\<close> throws
  \<open>std::bad_alloc\<close>. In a process that can, the read leaves the zero-filled buffer as it
  is and the reader returns the count \<open>2^32 - 1\<close> and \<open>2^32 - 1\<close> zero samples, which is
  what it returns for a readable file of \<open>2^32 - 1\<close> zero samples; with every allocation
  succeeding the run then goes on exactly as on that file, and on one rank the count is
  negative as the \<open>int\<close> count of \<open>MPI_Scatter\<close>, which rejects it.
\<close>

theorem unopenable_file_read_as_zeros:
  "count_of_pos (tellg None) = 4294967295
   \<and> (\<forall>avail. avail < 4294967295 \<longrightarrow> read_input_in avail None = Inl bad_alloc)
   \<and> (\<forall>avail. 4294967295 \<le> avail \<longrightarrow>
         read_input_in avail None = Inr (4294967295, replicate 4294967295 0)
       \<and> read_input_in avail None = read_input_in avail (Some (replicate (4294967295 * 4) 0)))
   \<and> read_input None = (4294967295, replicate 4294967295 0)
   \<and> read_input None = read_input (Some (replicate (4294967295 * 4) 0))
   \<and> (\<forall>W. get_counts None W = get_counts (Some (replicate (4294967295 * 4) 0)) W)
   \<and> get_counts None 1 = Inl MPI_ERR_COUNT"
proof -
  have cnt: "count_of_pos (tellg None) = 4294967295"
    by (simp only: tellg_None count_of_pos_minus_1)
  have short: "\<forall>avail. avail < 4294967295 \<longrightarrow> read_input_in avail None = Inl bad_alloc"
    by (simp add: read_input_in_short unopened_count)
  have same: "read_input None = read_input (Some (replicate (4294967295 * 4) 0))"
    by (simp only: read_input_None read_input_zeros)
  have enough: "\<forall>avail. 4294967295 \<le> avail \<longrightarrow>
         read_input_in avail None = Inr (4294967295, replicate 4294967295 0)
       \<and> read_input_in avail None = read_input_in avail (Some (replicate (4294967295 * 4) 0))"
  proof (intro allI impI)
    fix avail :: nat
    assume a: "4294967295 \<le> avail"
    then have n: "read_input_in avail None = Inr (read_input None)"
      by (intro read_input_in_enough) (simp only: unopened_count)
    from a have z: "read_input_in avail (Some (replicate (4294967295 * 4) 0))
                      = Inr (read_input (Some (replicate (4294967295 * 4) 0)))"
      by (intro read_input_in_enough) (simp only: zeros_count)
    from n z show "read_input_in avail None = Inr (4294967295, replicate 4294967295 0)
       \<and> read_input_in avail None = read_input_in avail (Some (replicate (4294967295 * 4) 0))"
      by (simp only: read_input_None read_input_zeros simp_thms)
  qed
  have one: "get_counts None 1 = Inl MPI_ERR_COUNT"
    by (simp only: get_counts_def read_input_None prod.case pipeline_unopened_1)
  from same have runs: "\<forall>W. get_counts None W = get_counts (Some (replicate (4294967295 * 4) 0)) W"
    by (simp only: get_counts_def) simp
  from cnt short enough same runs one show ?thesis
    using read_input_None by blast
qed

theorem unopenable_file_read_as_zeros_witness:
  "(1000 :: nat) < 4294967295
   \<and> read_input_in 1000 None = Inl bad_alloc
   \<and> (4294967295 :: nat) \<le> 4294967295
   \<and> read_input_in 4294967295 None = Inr (4294967295, replicate 4294967295 0)
   \<and> read_input_in 4294967295 None = read_input_in 4294967295 (Some (replicate (4294967295 * 4) 0))
   \<and> get_counts None 1 = Inl MPI_ERR_COUNT"
proof -
  note all = unopenable_file_read_as_zeros
  have a: "(1000 :: nat) < 4294967295" and b: "(4294967295 :: nat) \<le> 4294967295"
    by simp_all
  from all have "\<forall>avail. avail < 4294967295 \<longrightarrow> read_input_in avail None = Inl bad_alloc"
    by (elim conjE)
  with a have c: "read_input_in 1000 None = Inl bad_alloc" by blast
  from all have "\<forall>avail. 4294967295 \<le> avail \<longrightarrow>
         read_input_in avail None = Inr (4294967295, replicate 4294967295 0)
       \<and> read_input_in avail None = read_input_in avail (Some (replicate (4294967295 * 4) 0))"
    by (elim conjE)
  with b have d: "read_input_in 4294967295 None = Inr (4294967295, replicate 4294967295 0)
       \<and> read_input_in 4294967295 None = read_input_in 4294967295 (Some (replicate (4294967295 * 4) 0))"
    by blast
  from all have e: "get_counts None 1 = Inl MPI_ERR_COUNT"
    by (elim conjE)
  from a b c d e show ?thesis by blast
qed

text \<open>
  C7 as stated fails on two ranks when every allocation succeeds: with no file to open the
  run ends normally and writes \<open>{}\<close>, the \<open>2^32 - 2\<close> zero samples it counted having
  wrapped the counter of bucket 0 to \<open>-2\<close>.
\<close>

theorem unopenable_file_counterexample:
  "read_input None = (4294967295, replicate 4294967295 0)
   \<and> get_counts None 2 = Inr (''{}'' @ [CHR 0x0A])"
proof -
  have "get_counts None 2 = Inr (''{}'' @ [CHR 0x0A])"
    by (simp only: get_counts_def read_input_None prod.case pipeline_unopened_2)
  with read_input_None show ?thesis by blast
qed

subsection \<open>Determinism\<close>

lemma reduce_in_order:
  assumes "distinct order" and "set order = {..<length slices}"
  shows "MPI_Reduce_SUM (unat MAXVAL) (map (\<lambda>r. local_hist (slices ! r)) order)
           = MPI_Reduce_SUM (unat MAXVAL) (map local_hist slices)"
proof (rule nth_equalityI)
  show "length (MPI_Reduce_SUM (unat MAXVAL) (map (\<lambda>r. local_hist (slices ! r)) order))
          = length (MPI_Reduce_SUM (unat MAXVAL) (map local_hist slices))"
    by (simp add: length_MPI_Reduce_SUM length_local_hist unat_MAXVAL)
next
  fix b
  assume "b < length (MPI_Reduce_SUM (unat MAXVAL) (map (\<lambda>r. local_hist (slices ! r)) order))"
  then have b: "b < 1024"
    by (simp add: length_MPI_Reduce_SUM length_local_hist unat_MAXVAL)
  have "MPI_Reduce_SUM 1024 (map (\<lambda>r. local_hist (slices ! r)) order) ! b
          = (\<Sum>r\<leftarrow>order. local_hist (slices ! r) ! b)"
    using b by (simp add: MPI_Reduce_SUM_nth length_local_hist comp_def)
  also have "\<dots> = (\<Sum>r\<in>set order. local_hist (slices ! r) ! b)"
    using assms(1) by (rule sum_list_distinct_conv_sum_set)
  also have "\<dots> = (\<Sum>r\<in>set [0..<length slices]. local_hist (slices ! r) ! b)"
    using assms(2) by (simp add: lessThan_atLeast0)
  also have "\<dots> = (\<Sum>r\<leftarrow>[0..<length slices]. local_hist (slices ! r) ! b)"
    by (rule sum_list_distinct_conv_sum_set [symmetric]) simp
  also have "\<dots> = (\<Sum>h\<leftarrow>map local_hist (map (\<lambda>r. slices ! r) [0..<length slices]). h ! b)"
    by (simp add: comp_def)
  also have "\<dots> = (\<Sum>h\<leftarrow>map local_hist slices. h ! b)"
    by (simp only: map_nth)
  also have "\<dots> = MPI_Reduce_SUM 1024 (map local_hist slices) ! b"
    using b by (simp add: MPI_Reduce_SUM_nth length_local_hist)
  finally show "MPI_Reduce_SUM (unat MAXVAL) (map (\<lambda>r. local_hist (slices ! r)) order) ! b
                  = MPI_Reduce_SUM (unat MAXVAL) (map local_hist slices) ! b"
    by (simp only: unat_MAXVAL)
qed

lemma MPI_Scatter_length: "MPI_Scatter buf c W = Inr slices \<Longrightarrow> length slices = W"
  by (auto simp: MPI_Scatter_def length_scatter_blocks split: if_splits)

lemma get_counts_in_order_eq:
  assumes "distinct order" and "set order = {..<W}"
  shows "get_counts_in_order order fin W = get_counts fin W"
proof -
  obtain total_count data where r: "read_input fin = (total_count, data)"
    by (cases "read_input fin")
  show ?thesis
  proof (cases "MPI_Scatter data (total_count div of_nat W) W")
    case (Inl e)
    then show ?thesis
      by (simp add: get_counts_in_order_def get_counts_def pipeline_def global_histogram_def r)
  next
    case (Inr slices)
    then have "length slices = W" by (rule MPI_Scatter_length)
    with assms have "MPI_Reduce_SUM (unat MAXVAL) (map (\<lambda>r. local_hist (slices ! r)) order)
                       = MPI_Reduce_SUM (unat MAXVAL) (map local_hist slices)"
      by (intro reduce_in_order) simp_all
    with Inr show ?thesis
      by (simp add: get_counts_in_order_def get_counts_def pipeline_def global_histogram_def r)
  qed
qed

text \<open>
  C8. The output is a function of the file and of the number of ranks alone: two runs on
  the same file and the same number of ranks write the same bytes, in whatever order their
  reductions combine the contributions of the ranks, and that output is the one of the run
  that combines them in rank order.
\<close>

theorem output_deterministic:
  assumes "distinct order1" and "set order1 = {..<W}"
    and "distinct order2" and "set order2 = {..<W}"
  shows "get_counts_in_order order1 fin W = get_counts_in_order order2 fin W
       \<and> get_counts_in_order order1 fin W = get_counts fin W"
  using assms by (simp add: get_counts_in_order_eq)

theorem output_deterministic_witness:
  "distinct [0, 1 :: nat] \<and> set [0, 1 :: nat] = {..<2}
   \<and> distinct [1, 0 :: nat] \<and> set [1, 0 :: nat] = {..<2}
   \<and> get_counts_in_order [0, 1] (Some [7, 0, 0, 0, 9, 0, 0, 0]) 2
       = get_counts_in_order [1, 0] (Some [7, 0, 0, 0, 9, 0, 0, 0]) 2
   \<and> get_counts_in_order [0, 1] None 2 = get_counts_in_order [1, 0] None 2"
proof -
  have a: "distinct [0, 1 :: nat]" and b: "set [0, 1 :: nat] = {..<2}"
    and c: "distinct [1, 0 :: nat]" and d: "set [1, 0 :: nat] = {..<2}"
    by (auto simp: lessThan_def)
  from output_deterministic [OF a b c d, of "Some [7, 0, 0, 0, 9, 0, 0, 0]"]
       output_deterministic [OF a b c d, of None] a b c d
  show ?thesis by blast
qed

subsection \<open>The scenario of the specification\<close>

lemma positive_entries_scenario:
  "positive_entries (local_hist [0, 1, 1, 2, 1023, 1024, 2000])
     = [(0, 1), (1, 2), (2, 1), (1023, 1)]"
proof -
  let ?S = "[0, 1, 1, 2, 1023, 1024, 2000 :: u32]"
  let ?P = "\<lambda>i. 0 <s local_hist ?S ! i"
  have val: "\<And>i. i < 1024 \<Longrightarrow> sint (local_hist ?S ! i) = int (occurrences ?S i)"
    by (simp add: local_hist_nth sint_of_nat_small occurrences_def)
  have P: "\<And>i. i < 1024 \<Longrightarrow> ?P i \<longleftrightarrow> i \<in> {0, 1, 2, 1023}"
    by (simp only: pos_iff_sint val) (auto simp: occurrences_def)
  have "set (filter ?P [0..<1024]) = set [0, 1, 2, 1023]"
    using P by auto
  moreover have "sorted (filter ?P [0..<1024])" and "distinct (filter ?P [0..<1024])"
    by (simp_all add: sorted_wrt_filter)
  moreover have "sorted [0, 1, 2, 1023 :: nat]" and "distinct [0, 1, 2, 1023 :: nat]"
    by simp_all
  ultimately have "filter ?P [0..<1024] = [0, 1, 2, 1023]"
    by (intro sorted_distinct_set_unique)
  then show ?thesis
    by (simp add: positive_entries_def unat_MAXVAL val) (simp add: occurrences_def)
qed

text \<open>
  The scenario of the specification: the samples 0, 1, 1, 2, 1023, 1024 and 2000 on one
  rank give \<open>{"0":1,"1":2,"2":1,"1023":1}\<close>.
\<close>

lemma pipeline_scenario:
  "pipeline 7 [0, 1, 1, 2, 1023, 1024, 2000] 1
     = Inr (''{'' @ [CHR 0x22] @ ''0'' @ [CHR 0x22] @ '':1,''
                  @ [CHR 0x22] @ ''1'' @ [CHR 0x22] @ '':2,''
                  @ [CHR 0x22] @ ''2'' @ [CHR 0x22] @ '':1,''
                  @ [CHR 0x22] @ ''1023'' @ [CHR 0x22] @ '':1}'' @ [CHR 0x0A])"
proof -
  have ok: "\<not> (7 :: u32) div of_nat 1 <s 0" by (simp add: sless_0_iff)
  have digits: "show_nat 0 = ''0''" "show_nat (Suc 0) = ''1''" "show_nat 2 = ''2''"
    "show_nat 1023 = ''1023''"
    by code_simp+
  from pipeline_ok [OF ok, of "[0, 1, 1, 2, 1023, 1024, 2000]"]
  have "pipeline 7 [0, 1, 1, 2, 1023, 1024, 2000] 1
          = Inr (sparse_json (positive_entries (local_hist [0, 1, 1, 2, 1023, 1024, 2000])))"
    by (simp add: emit_positive_entries)
  then show ?thesis
    by (simp add: positive_entries_scenario sparse_json_def json_entry_def show_int_def digits)
qed

subsection \<open>Reduction on the code path\<close>

lemma scatter_whole:
  assumes "W < 2147483648" and "length S < 4294967296" and "length S div W < 2147483648"
  shows "MPI_Scatter S (of_nat (length S) div of_nat W) W
           = Inr (scatter_blocks S (length S div W) W)"
proof -
  let ?tc = "of_nat (length S) :: u32"
  have tc: "unat ?tc = length S"
    using assms(2) by (simp add: unat_of_nat)
  from assms(1) have "W < 4294967296" by linarith
  then have n: "unat (?tc div of_nat W) = length S div W"
    by (simp add: unat_local_n tc)
  with assms(3) have "\<not> (?tc div of_nat W) <s 0"
    by (simp add: sless_0_iff)
  then show ?thesis
    by (simp add: MPI_Scatter_ok n)
qed

text \<open>
  C1, as the code has it. Let \<open>S\<close> hold fewer than \<open>2^32\<close> samples, so that its length
  fits \<open>total_count\<close>, let the number \<open>W\<close> of ranks divide that length, and let the slice
  length \<open>|S| / W\<close> fit the \<open>int\<close> count of \<open>MPI_Scatter\<close>. Then \<open>MPI_Scatter\<close> delivers
  \<open>W\<close> slices, slice \<open>r\<close> being the \<open>|S| / W\<close> samples from index \<open>r * (|S| / W)\<close> on, whose
  concatenation is \<open>S\<close>; the global histogram which the program computes is the
  element-wise sum, by \<open>MPI_Reduce\<close>, of the local histograms of these slices, and it is the
  histogram of \<open>S\<close> counted in one piece, whose counter \<open>b\<close> is the number of samples equal to
  \<open>b\<close> as a 32-bit value. Every counter of the sum is the sum over the ranks of their
  counters for that bucket, as 32-bit values always, and as integers, equal to the number of
  samples in the bucket, when the bucket holds fewer than \<open>2^31\<close> samples of \<open>S\<close>.
\<close>

theorem reduce_of_slices_is_direct_histogram:
  assumes "0 < W" and "W < 2147483648"
    and "W dvd length S" and "length S < 4294967296"
    and "length S div W < 2147483648"
  shows "MPI_Scatter S (of_nat (length S) div of_nat W) W
           = Inr (scatter_blocks S (length S div W) W)
       \<and> length (scatter_blocks S (length S div W) W) = W
       \<and> (\<forall>r<W. scatter_blocks S (length S div W) W ! r
                   = take (length S div W) (drop (r * (length S div W)) S)
                 \<and> length (scatter_blocks S (length S div W) W ! r) = length S div W)
       \<and> concat (scatter_blocks S (length S div W) W) = S
       \<and> global_histogram (of_nat (length S)) S W
           = Inr (MPI_Reduce_SUM (unat MAXVAL)
                    (map local_hist (scatter_blocks S (length S div W) W)))
       \<and> global_histogram (of_nat (length S)) S W = Inr (local_hist S)
       \<and> (\<forall>b<1024. local_hist S ! b = of_nat (occurrences S b))
       \<and> (\<forall>b<1024.
            MPI_Reduce_SUM (unat MAXVAL) (map local_hist (scatter_blocks S (length S div W) W)) ! b
              = (\<Sum>h\<leftarrow>map local_hist (scatter_blocks S (length S div W) W). h ! b))
       \<and> (\<forall>b<1024. occurrences S b < 2147483648 \<longrightarrow>
            sint (MPI_Reduce_SUM (unat MAXVAL)
                    (map local_hist (scatter_blocks S (length S div W) W)) ! b)
              = (\<Sum>h\<leftarrow>map local_hist (scatter_blocks S (length S div W) W). sint (h ! b))
          \<and> sint (MPI_Reduce_SUM (unat MAXVAL)
                    (map local_hist (scatter_blocks S (length S div W) W)) ! b)
              = int (occurrences S b))"
proof -
  let ?n = "length S div W"
  let ?slices = "scatter_blocks S ?n W"
  let ?sum = "MPI_Reduce_SUM (unat MAXVAL) (map local_hist ?slices)"
  have scat: "MPI_Scatter S (of_nat (length S) div of_nat W) W = Inr ?slices"
    using assms(2,4,5) by (rule scatter_whole)
  have len: "length ?slices = W"
    by (rule length_scatter_blocks)
  from assms(3) have fits: "W * ?n \<le> length S" by simp
  have each: "\<forall>r<W. ?slices ! r = take ?n (drop (r * ?n) S) \<and> length (?slices ! r) = ?n"
  proof (intro allI impI conjI)
    fix r assume r: "r < W"
    then show "?slices ! r = take ?n (drop (r * ?n) S)"
      by (rule scatter_blocks_nth)
    from r fits show "length (?slices ! r) = ?n"
      by (rule length_scatter_block)
  qed
  have part: "concat ?slices = S"
    using assms(3) by (rule scatter_blocks_partition)
  have code: "global_histogram (of_nat (length S)) S W = Inr ?sum"
    by (simp add: global_histogram_def Let_def scat)
  have red: "?sum = local_hist S"
    by (simp add: reduce_local_hists part)
  have direct: "global_histogram (of_nat (length S)) S W = Inr (local_hist S)"
    by (simp only: code red)
  have spec: "\<forall>b<1024. local_hist S ! b = of_nat (occurrences S b)"
    by (simp add: local_hist_nth)
  have words: "\<forall>b<1024. ?sum ! b = (\<Sum>h\<leftarrow>map local_hist ?slices. h ! b)"
    by (simp add: MPI_Reduce_SUM_nth length_local_hist unat_MAXVAL)
  have ints: "\<forall>b<1024. occurrences S b < 2147483648 \<longrightarrow>
                sint (?sum ! b) = (\<Sum>h\<leftarrow>map local_hist ?slices. sint (h ! b))
              \<and> sint (?sum ! b) = int (occurrences S b)"
  proof (intro allI impI)
    fix b :: nat
    assume b: "b < 1024" and small: "occurrences S b < 2147483648"
    from small part have small': "occurrences (concat ?slices) b < 2147483648" by simp
    have v: "sint (local_hist S ! b) = int (occurrences S b)"
      using b small by (simp add: local_hist_nth sint_of_nat_small)
    have "int (occurrences S b) = (\<Sum>h\<leftarrow>map local_hist ?slices. sint (h ! b))"
      using sum_list_sint_local_hists [OF b small'] part by simp
    with v show "sint (?sum ! b) = (\<Sum>h\<leftarrow>map local_hist ?slices. sint (h ! b))
               \<and> sint (?sum ! b) = int (occurrences S b)"
      by (simp add: red)
  qed
  from scat len each part code direct spec words ints show ?thesis
    by blast
qed

theorem reduce_of_slices_is_direct_histogram_witness:
  "(0 :: nat) < 3 \<and> (3 :: nat) < 2147483648
   \<and> 3 dvd length [1, 2, 2, 1024, 2, 7 :: u32]
   \<and> length [1, 2, 2, 1024, 2, 7 :: u32] < 4294967296
   \<and> length [1, 2, 2, 1024, 2, 7 :: u32] div 3 < 2147483648
   \<and> MPI_Scatter [1, 2, 2, 1024, 2, 7 :: u32] (6 div of_nat 3) 3 = Inr [[1, 2], [2, 1024], [2, 7]]
   \<and> global_histogram 6 [1, 2, 2, 1024, 2, 7] 3
       = Inr (MPI_Reduce_SUM (unat MAXVAL)
                [local_hist [1, 2], local_hist [2, 1024], local_hist [2, 7]])
   \<and> global_histogram 6 [1, 2, 2, 1024, 2, 7] 3 = Inr (local_hist [1, 2, 2, 1024, 2, 7])
   \<and> sint (MPI_Reduce_SUM (unat MAXVAL)
                [local_hist [1, 2], local_hist [2, 1024], local_hist [2, 7]] ! 2) = 3
   \<and> sint (local_hist [1, 2] ! 2) + sint (local_hist [2, 1024] ! 2) + sint (local_hist [2, 7] ! 2) = 3
   \<and> sint (MPI_Reduce_SUM (unat MAXVAL)
                [local_hist [1, 2], local_hist [2, 1024], local_hist [2, 7]] ! 7) = 1
   \<and> sint (MPI_Reduce_SUM (unat MAXVAL)
                [local_hist [1, 2], local_hist [2, 1024], local_hist [2, 7]] ! 0) = 0"
proof -
  let ?S = "[1, 2, 2, 1024, 2, 7 :: u32]"
  have l6: "length ?S = 6" by simp
  have h1: "(0 :: nat) < 3" and h2: "(3 :: nat) < 2147483648"
    and h4: "length ?S < 4294967296" and h5: "length ?S div 3 < 2147483648"
    by simp_all
  have h3: "3 dvd length ?S" by (simp only: l6) simp
  have n: "length ?S div 3 = 2" by simp
  have tc: "(of_nat (length ?S) :: u32) = 6" by simp
  have blocks: "scatter_blocks ?S 2 3 = [[1, 2], [2, 1024], [2, 7]]"
    by (simp add: numeral_3_eq_3)
  have maps: "map local_hist [[1, 2], [2, 1024], [2, 7]]
                = [local_hist [1, 2], local_hist [2, 1024], local_hist [2, 7]]"
    by simp
  have occ: "occurrences ?S 2 = 3" "occurrences ?S 7 = 1" "occurrences ?S 0 = 0"
    by (simp_all add: occurrences_def)
  have loc: "sint (local_hist [1, 2 :: u32] ! 2) = 1" "sint (local_hist [2, 1024 :: u32] ! 2) = 1"
    "sint (local_hist [2, 7 :: u32] ! 2) = 1"
    by (simp_all add: local_hist_nth occurrences_def)
  note all = reduce_of_slices_is_direct_histogram [OF h1 h2 h3 h4 h5, unfolded n tc blocks maps]
  from all have a: "MPI_Scatter ?S (6 div of_nat 3) 3 = Inr [[1, 2], [2, 1024], [2, 7]]"
    by (elim conjE)
  from all have b: "global_histogram 6 ?S 3
      = Inr (MPI_Reduce_SUM (unat MAXVAL) [local_hist [1, 2], local_hist [2, 1024], local_hist [2, 7]])"
    by (elim conjE)
  from all have c: "global_histogram 6 ?S 3 = Inr (local_hist ?S)"
    by (elim conjE)
  from all have ints: "\<forall>b<1024. occurrences ?S b < 2147483648 \<longrightarrow>
      sint (MPI_Reduce_SUM (unat MAXVAL) [local_hist [1, 2], local_hist [2, 1024], local_hist [2, 7]] ! b)
        = (\<Sum>h\<leftarrow>[local_hist [1, 2], local_hist [2, 1024], local_hist [2, 7]]. sint (h ! b))
    \<and> sint (MPI_Reduce_SUM (unat MAXVAL) [local_hist [1, 2], local_hist [2, 1024], local_hist [2, 7]] ! b)
        = int (occurrences ?S b)"
    by (elim conjE)
  from ints have v: "\<And>b. b < 1024 \<Longrightarrow> occurrences ?S b < 2147483648 \<Longrightarrow>
      sint (MPI_Reduce_SUM (unat MAXVAL) [local_hist [1, 2], local_hist [2, 1024], local_hist [2, 7]] ! b)
        = int (occurrences ?S b)"
    by blast
  from v [of 2] occ have d2: "sint (MPI_Reduce_SUM (unat MAXVAL)
      [local_hist [1, 2], local_hist [2, 1024], local_hist [2, 7]] ! 2) = 3"
    by simp
  from v [of 7] occ have d7: "sint (MPI_Reduce_SUM (unat MAXVAL)
      [local_hist [1, 2], local_hist [2, 1024], local_hist [2, 7]] ! 7) = 1"
    by simp
  from v [of 0] occ have d0: "sint (MPI_Reduce_SUM (unat MAXVAL)
      [local_hist [1, 2], local_hist [2, 1024], local_hist [2, 7]] ! 0) = 0"
    by simp
  from loc have e: "sint (local_hist [1, 2] ! 2) + sint (local_hist [2, 1024] ! 2)
                      + sint (local_hist [2, 7] ! 2) = 3"
    by simp
  from h1 h2 h3 h4 h5 a b c d2 e d7 d0 show ?thesis
    by blast
qed

text \<open>
  C1 as stated fails on the program for one rank and \<open>2^31\<close> samples of value 5000: one
  rank divides any length and no counter can overflow, the histogram of the samples counted
  in one piece being all zero, yet the slice length \<open>2^31\<close> is negative as the \<open>int\<close> count
  of \<open>MPI_Scatter\<close> and the program computes no histogram.
\<close>

theorem reduce_of_slices_counterexample:
  "1 dvd length (replicate 2147483648 (5000 :: u32))
   \<and> local_hist (replicate 2147483648 5000) = replicate 1024 0
   \<and> global_histogram (of_nat (length (replicate 2147483648 (5000 :: u32))))
         (replicate 2147483648 5000) 1 = Inl MPI_ERR_COUNT"
proof -
  let ?S = "replicate 2147483648 (5000 :: u32)"
  have len: "length ?S = 2147483648" by (rule length_replicate)
  have tc: "(of_nat (length ?S) :: u32) = 2147483648" by (simp only: len) simp
  have "(2147483648 :: u32) div of_nat 1 <s 0"
    by (simp add: sless_0_iff)
  then have err: "global_histogram 2147483648 ?S 1 = Inl MPI_ERR_COUNT"
    by (rule global_histogram_error)
  have direct: "local_hist ?S = replicate 1024 0"
    by (rule nth_equalityI) (simp_all add: length_local_hist local_hist_nth occurrences_replicate)
  have "1 dvd length ?S" by (rule one_dvd)
  with direct err show ?thesis
    by (simp only: tc simp_thms)
qed

end
